theory Spec2Isabelle
  imports Complex_Main "HOL-Library.Word" "HOL-Library.AList"
begin

section \<open>backy2: the levelled chunk store of \<open>src/backy2/main.py\<close>\<close>

text \<open>
  The embedding follows \<open>main.py\<close> function by function. Conventions:
  \<^item> Python integers are \<open>int\<close>; bytes objects are lists of 8-bit words.
  \<^item> \<open>hashlib.md5(data).hexdigest()\<close> is a library function outside the repository; every
    function that hashes takes it as its first parameter \<open>md5\<close>.
  \<^item> A Python \<open>dict\<close> is an association list in insertion order with distinct keys:
    assignment to an existing key keeps its position (\<open>AList.update\<close>), a new key is
    appended, \<open>len\<close> is the length of the list.
  \<^item> A mutating method returns the updated object. A method that can raise after it has
    mutated the object returns the object together with \<open>error option\<close>; a method that
    raises before any mutation returns \<open>error + 'a\<close>.
  \<^item> Logging is not modelled.
  \<^item> \<open>chunk_size\<close> is the constructor argument of \<open>Backy\<close>, \<open>Level\<close> and
    \<open>Index\<close>; \<open>Commands\<close> passes \<open>CHUNK_SIZE\<close>. \<open>backup\<close> and \<open>restore\<close> divide
    by it and raise \<open>ZeroDivisionError\<close> when it is 0; for any other value Python's
    floor division is \<open>div\<close>.
  \<^item> The source of a backup is the content of a file that \<open>open\<close> has opened.
\<close>

subsection \<open>Constants, errors, files\<close>

type_synonym byte = "8 word"
type_synonym bytes = "byte list"

definition CHUNK_SIZE :: int where
  "CHUNK_SIZE = 1024 * 4096"

definition CHUNK_STATUS_EXISTS :: int where
  "CHUNK_STATUS_EXISTS = 0"

definition CHUNK_STATUS_WIPED :: int where
  "CHUNK_STATUS_WIPED = 1"

text \<open>
  One constructor per \<open>raise\<close> site of the core. The source raises \<open>BackyException\<close> with a
  message at most sites; the constructor names are the error kinds the specification gives
  to these sites:
  \<^item> \<open>ChunkTooLarge\<close>: \<open>BackyException('Unable to write chunk, size > chunk size.')\<close>
  \<^item> \<open>ShrinkUnsupported\<close>: \<open>BackyException('Shrinking is unsupported. Make a new backup.')\<close>
  \<^item> \<open>HintsOutOfRange\<close>: \<open>BackyException('Hints have higher offsets than source file.')\<close>
  \<^item> \<open>UnexpectedEOF\<close>: \<open>BackyException('EOF reached on source when there should be data.')\<close>
  \<^item> \<open>LevelNotFound l\<close>: \<open>BackyException('Level l not found.')\<close>
  \<^item> \<open>ChunkMissing c\<close>: \<open>BackyException('Chunk c not found in any backup.')\<close>
  \<^item> \<open>ChunkChecksumWrong c\<close> and \<open>ChunkNotFound\<close>: the exception classes of these names
  \<^item> \<open>OSError\<close>: what \<open>seek\<close> raises on a negative position
  \<^item> \<open>ValueError\<close>: what \<open>read(n)\<close> raises on \<open>n < -1\<close>
  \<^item> \<open>ZeroDivisionError\<close>: what \<open>/\<close> and \<open>//\<close> raise on a divisor of 0
\<close>

datatype error =
    ChunkTooLarge
  | ShrinkUnsupported
  | HintsOutOfRange
  | UnexpectedEOF
  | LevelNotFound int
  | ChunkMissing int
  | ChunkChecksumWrong int
  | ChunkNotFound
  | OSError
  | ValueError
  | ZeroDivisionError

text \<open>
  A binary file is its byte list. \<open>f.seek(pos); f.read(n)\<close> returns at most \<open>n\<close> bytes
  from \<open>pos\<close> (nothing when \<open>pos\<close> is past the end, everything up to the end when
  \<open>n = -1\<close>). \<open>f.seek(pos); f.write(d)\<close> overwrites in place and extends the file,
  filling a gap between the old end and \<open>pos\<close> with zero bytes; writing no bytes leaves
  the file as it is.
\<close>

definition file_read :: "bytes \<Rightarrow> int \<Rightarrow> int \<Rightarrow> error + bytes" where
  "file_read f pos n =
     (if pos < 0 then Inl OSError
      else if n < -1 then Inl ValueError
      else if n = -1 then Inr (drop (nat pos) f)
      else Inr (take (nat n) (drop (nat pos) f)))"

definition file_write :: "bytes \<Rightarrow> nat \<Rightarrow> bytes \<Rightarrow> bytes" where
  "file_write f pos d =
     (if d = [] then f
      else take pos (f @ replicate (pos - length f) 0) @ d @ drop (pos + length d) f)"

subsection \<open>Chunk and Index\<close>

record Chunk =
  checksum :: string
  offset :: int
  length_c :: int
  status :: int

text \<open>The class attributes of \<open>Chunk\<close> are the field values of a fresh \<open>Chunk()\<close>.\<close>

definition Chunk_init :: Chunk where
  "Chunk_init = \<lparr>checksum = '''', offset = 0, length_c = 0, status = - 1\<rparr>"

record Index =
  chunk_size_i :: int
  size_i :: int
  index_d :: "(int \<times> Chunk) list"

definition Index_init :: "int \<Rightarrow> Index" where
  "Index_init cs = \<lparr>chunk_size_i = cs, size_i = 0, index_d = []\<rparr>"

definition Index_has :: "Index \<Rightarrow> int \<Rightarrow> bool" where
  "Index_has ix chunk_id = (map_of (index_d ix) chunk_id \<noteq> None)"

definition next_offset :: "Index \<Rightarrow> int" where
  "next_offset ix = int (length (index_d ix)) * chunk_size_i ix"

text \<open>
  \<open>Index.get\<close> returns the descriptor object stored in the dict; the callers then assign
  to its fields. Here it returns the descriptor's value and the index, and the callers
  store the changed descriptor back under the same key (\<open>Index_put\<close>).
\<close>

definition Index_get :: "Index \<Rightarrow> int \<Rightarrow> Chunk \<times> Index" where
  "Index_get ix chunk_id =
     (case map_of (index_d ix) chunk_id of
        Some chunk \<Rightarrow> (chunk, ix)
      | None \<Rightarrow>
          (let chunk = Chunk_init\<lparr>offset := next_offset ix\<rparr>
           in (chunk, ix\<lparr>index_d := index_d ix @ [(chunk_id, chunk)]\<rparr>)))"

definition Index_put :: "Index \<Rightarrow> int \<Rightarrow> Chunk \<Rightarrow> Index" where
  "Index_put ix chunk_id chunk = ix\<lparr>index_d := AList.update chunk_id chunk (index_d ix)\<rparr>"

definition chunk_ids :: "Index \<Rightarrow> int list" where
  "chunk_ids ix = map fst (index_d ix)"

text \<open>
  An index file is its first line (the size) and its list of descriptor lines, each a
  chunk id with the four fields; the decimal and \<open>|\<close>-separated text form is not
  modelled. \<open>Index.write\<close> emits the keys in ascending order; \<open>Index.read\<close> assigns the
  lines to the dict in file order.
\<close>

type_synonym index_file = "int \<times> (int \<times> Chunk) list"

definition Index_write :: "Index \<Rightarrow> index_file" where
  "Index_write ix =
     (size_i ix, map (\<lambda>k. (k, the (map_of (index_d ix) k))) (sort (map fst (index_d ix))))"

definition Index_read :: "Index \<Rightarrow> index_file \<Rightarrow> Index" where
  "Index_read ix f =
     ix\<lparr>size_i := fst f,
        index_d := fold (\<lambda>(chunk_id, chunk) d. AList.update chunk_id chunk d) (snd f) (index_d ix)\<rparr>"

subsection \<open>Level\<close>

record Level =
  chunk_size :: int
  data :: bytes
  index :: Index

text \<open>
  The two files of a level on disk. \<open>Level.open\<close> creates a missing data file empty and
  keeps the fresh index when the index file is missing, so a level none of whose files
  exists is \<open>no_files\<close>: an empty data file and an index file with size 0 and no lines.
\<close>

record level_files =
  data_file :: bytes
  index_file :: index_file

definition no_files :: level_files where
  "no_files = \<lparr>data_file = [], index_file = (0, [])\<rparr>"

definition Level_open :: "int \<Rightarrow> level_files \<Rightarrow> Level" where
  "Level_open cs fs =
     \<lparr>chunk_size = cs, data = data_file fs, index = Index_read (Index_init cs) (index_file fs)\<rparr>"

definition Level_close :: "Level \<Rightarrow> level_files" where
  "Level_close lv = \<lparr>data_file = data lv, index_file = Index_write (index lv)\<rparr>"

definition Level_write :: "(bytes \<Rightarrow> string) \<Rightarrow> Level \<Rightarrow> int \<Rightarrow> bytes \<Rightarrow> error option \<times> Level" where
  "Level_write md5 lv chunk_id d =
     (if int (length d) > chunk_size lv then (Some ChunkTooLarge, lv)
      else
        (let cksum = md5 d;
             (chunk, ix) = Index_get (index lv) chunk_id
         in if offset chunk < 0 then (Some OSError, lv\<lparr>index := ix\<rparr>)
            else
              (let chunk' = chunk\<lparr>checksum := cksum, length_c := int (length d),
                                   status := CHUNK_STATUS_EXISTS\<rparr>
               in (None, lv\<lparr>index := Index_put ix chunk_id chunk',
                               data := file_write (data lv) (nat (offset chunk)) d\<rparr>))))"

definition Level_read_meta :: "Level \<Rightarrow> int \<Rightarrow> error + Chunk" where
  "Level_read_meta lv chunk_id =
     (if \<not> Index_has (index lv) chunk_id then Inl ChunkNotFound
      else Inr (fst (Index_get (index lv) chunk_id)))"

definition Level_read :: "(bytes \<Rightarrow> string) \<Rightarrow> Level \<Rightarrow> int \<Rightarrow> bool \<Rightarrow> error + bytes" where
  "Level_read md5 lv chunk_id raise_on_error =
     (case Level_read_meta lv chunk_id of
        Inl e \<Rightarrow> Inl e
      | Inr chunk \<Rightarrow>
          (case file_read (data lv) (offset chunk) (length_c chunk) of
             Inl e \<Rightarrow> Inl e
           | Inr d \<Rightarrow>
               if md5 d \<noteq> checksum chunk
               then (if raise_on_error then Inl (ChunkChecksumWrong chunk_id) else Inr d)
               else Inr d))"

definition Level_set_size :: "Level \<Rightarrow> int \<Rightarrow> error + Level" where
  "Level_set_size lv n =
     (if size_i (index lv) > n then Inl ShrinkUnsupported
      else Inr (lv\<lparr>index := (index lv)\<lparr>size_i := n\<rparr>\<rparr>))"

definition Level_size :: "Level \<Rightarrow> int" where
  "Level_size lv = size_i (index lv)"

definition Level_invalidate_chunk :: "Level \<Rightarrow> int \<Rightarrow> Level" where
  "Level_invalidate_chunk lv chunk_id =
     (let (chunk, ix) = Index_get (index lv) chunk_id
      in lv\<lparr>index := Index_put ix chunk_id (chunk\<lparr>checksum := ''''\<rparr>)\<rparr>)"

subsection \<open>Hint resolver\<close>

text \<open>
  \<open>chunks_from_hints\<close>, lines 203--211. Its only caller is \<open>backup\<close>, after the
  division of line 287, so it runs with a chunk size other than 0.
\<close>

definition chunks_from_hints :: "(int \<times> int) list \<Rightarrow> int \<Rightarrow> int set" where
  "chunks_from_hints hints cs =
     fold (\<lambda>(ofs, len) chunks.
             (let start_chunk = ofs div cs;
                  end_chunk = start_chunk + (len - 1) div cs
              in fold insert [start_chunk..end_chunk] chunks))
          hints {}"

subsection \<open>Backy: the archive\<close>

text \<open>
  The state of the backup directory for one backup name: the two files of Base and the
  files of the numbered levels. \<open>get_levels\<close> takes the level numbers from the file names
  (\<open>glob\<close>, the last dot-separated token of each name); here the numbers are the keys of
  \<open>overlay_files\<close>. \<open>files_of\<close> is \<open>data_filename(level)\<close> with \<open>index_filename(level)\<close>.
\<close>

record archive =
  base_files :: level_files
  overlay_files :: "(int \<times> level_files) list"

definition empty_archive :: archive where
  "empty_archive = \<lparr>base_files = no_files, overlay_files = []\<rparr>"

definition get_levels :: "archive \<Rightarrow> int list" where
  "get_levels a = sort (remdups (map fst (overlay_files a)))"

definition get_next_level :: "archive \<Rightarrow> int" where
  "get_next_level a = (let levels = get_levels a in if levels = [] then 0 else last levels + 1)"

definition files_of :: "archive \<Rightarrow> int option \<Rightarrow> level_files" where
  "files_of a level =
     (case level of
        None \<Rightarrow> base_files a
      | Some l \<Rightarrow> (case map_of (overlay_files a) l of None \<Rightarrow> no_files | Some fs \<Rightarrow> fs))"

text \<open>
  \<open>math.ceil(source_size / chunk_size)\<close> divides as floating point; the model takes the
  exact ceiling, which is what the float computation gives as long as the quotient is
  exactly representable (any size below \<open>2^53\<close> with the 4 MiB chunk size).
\<close>

definition ceil_div :: "int \<Rightarrow> int \<Rightarrow> int" where
  "ceil_div a b = - ((- a) div b)"

text \<open>Lines 322--339 of \<open>backup\<close>: evict the old chunk into the next level, write the new one.\<close>

definition evict_and_write ::
  "(bytes \<Rightarrow> string) \<Rightarrow> Level \<Rightarrow> Level \<Rightarrow> int \<Rightarrow> bytes \<Rightarrow> error option \<times> Level \<times> Level" where
  "evict_and_write md5 base_level next_level chunk_id d =
     (case Level_read md5 base_level chunk_id False of
        Inl e \<Rightarrow>
          if e = ChunkNotFound
          then (let (r, b) = Level_write md5 base_level chunk_id d in (r, b, next_level))
          else (Some e, base_level, next_level)
      | Inr old_data \<Rightarrow>
          (case Level_write md5 next_level chunk_id old_data of
             (Some e, n) \<Rightarrow> (Some e, base_level, n)
           | (None, n) \<Rightarrow> (let (r, b) = Level_write md5 base_level chunk_id d in (r, b, n))))"

text \<open>The body of the loop over \<open>sorted(read_chunks)\<close>, lines 306--339.\<close>

definition backup_chunk ::
  "(bytes \<Rightarrow> string) \<Rightarrow> int \<Rightarrow> bytes \<Rightarrow> Level \<Rightarrow> Level \<Rightarrow> int \<Rightarrow> error option \<times> Level \<times> Level" where
  "backup_chunk md5 cs source base_level next_level chunk_id =
     (case file_read source (chunk_id * cs) cs of
        Inl e \<Rightarrow> (Some e, base_level, next_level)
      | Inr d \<Rightarrow>
          if d = [] then (Some UnexpectedEOF, base_level, next_level)
          else
            (let data_checksum = md5 d
             in case Level_read_meta base_level chunk_id of
                  Inl e \<Rightarrow> evict_and_write md5 base_level next_level chunk_id d
                | Inr m \<Rightarrow>
                    if data_checksum = checksum m then (None, base_level, next_level)
                    else evict_and_write md5 base_level next_level chunk_id d))"

fun backup_loop ::
  "(bytes \<Rightarrow> string) \<Rightarrow> int \<Rightarrow> bytes \<Rightarrow> int list \<Rightarrow> Level \<Rightarrow> Level \<Rightarrow> error option \<times> Level \<times> Level" where
  "backup_loop md5 cs source [] base_level next_level = (None, base_level, next_level)"
| "backup_loop md5 cs source (chunk_id # rest) base_level next_level =
     (case backup_chunk md5 cs source base_level next_level chunk_id of
        (Some e, b, n) \<Rightarrow> (Some e, b, n)
      | (None, b, n) \<Rightarrow> backup_loop md5 cs source rest b n)"

text \<open>\<open>if hints:\<close> is false for \<open>None\<close> and for the empty list.\<close>

definition hints_given :: "(int \<times> int) list option \<Rightarrow> bool" where
  "hints_given hints = (case hints of None \<Rightarrow> False | Some hs \<Rightarrow> hs \<noteq> [])"

definition read_chunks :: "(int \<times> int) list option \<Rightarrow> int \<Rightarrow> int \<Rightarrow> int list" where
  "read_chunks hints cs num_chunks_src =
     (if hints_given hints then sorted_list_of_set (chunks_from_hints (the hints) cs)
      else [0..num_chunks_src - 1])"

text \<open>
  The body of the \<open>with\<close> statement of \<open>backup\<close>, from the two opened levels to the
  levels as they are when the statement is left, by completion or by an exception.
\<close>

definition backup_body ::
  "(bytes \<Rightarrow> string) \<Rightarrow> int \<Rightarrow> bytes \<Rightarrow> (int \<times> int) list option \<Rightarrow> Level \<Rightarrow> Level
     \<Rightarrow> error option \<times> Level \<times> Level" where
  "backup_body md5 cs source hints base_level next_level =
     (let source_size = int (length source)
      in if cs = 0 then (Some ZeroDivisionError, base_level, next_level)
         else
           (let num_chunks_src = ceil_div source_size cs
            in case Level_set_size next_level (Level_size base_level) of
                 Inl e \<Rightarrow> (Some e, base_level, next_level)
               | Inr n1 \<Rightarrow>
                   (case Level_set_size base_level source_size of
                      Inl e \<Rightarrow> (Some e, base_level, n1)
                    | Inr b1 \<Rightarrow>
                        if hints_given hints \<and>
                           Max (set (map (\<lambda>h. fst h + snd h) (the hints))) > source_size
                        then (Some HintsOutOfRange, b1, n1)
                        else backup_loop md5 cs source
                               (read_chunks hints cs num_chunks_src) b1 n1)))"

text \<open>
  \<open>backup\<close>: both levels are closed on every exit path, so the index files are written
  also when the backup raises; the result is the exception, if any, and the directory.
\<close>

definition backup ::
  "(bytes \<Rightarrow> string) \<Rightarrow> int \<Rightarrow> archive \<Rightarrow> bytes \<Rightarrow> (int \<times> int) list option
     \<Rightarrow> error option \<times> archive" where
  "backup md5 cs a source hints =
     (let next_level_number = get_next_level a;
          base_level = Level_open cs (files_of a None);
          next_level = Level_open cs (files_of a (Some next_level_number));
          (r, b, n) = backup_body md5 cs source hints base_level next_level
      in (r, a\<lparr>base_files := Level_close b,
                overlay_files :=
                  AList.update next_level_number (Level_close n) (overlay_files a)\<rparr>))"

text \<open>\<open>restore\<close>, lines 353--380: the opened levels and the read list.\<close>

definition restore_levels :: "int \<Rightarrow> archive \<Rightarrow> int option \<Rightarrow> error + Level list" where
  "restore_levels cs a level =
     (let all_levels = get_levels a
      in if level \<noteq> None \<and> the level \<notin> set all_levels then Inl (LevelNotFound (the level))
         else
           (let to_restore_levels =
                  (case level of
                     None \<Rightarrow> []
                   | Some l \<Rightarrow> dropWhile (\<lambda>x. x \<noteq> l) all_levels)
            in Inr (map (\<lambda>l. Level_open cs (files_of a (Some l))) to_restore_levels
                    @ [Level_open cs (files_of a None)])))"

fun read_list :: "Level list \<Rightarrow> int list \<Rightarrow> error + (int \<times> Level) list" where
  "read_list levels [] = Inr []"
| "read_list levels (chunk_id # rest) =
     (case find (\<lambda>level. Index_has (index level) chunk_id) levels of
        None \<Rightarrow> Inl (ChunkMissing chunk_id)
      | Some level \<Rightarrow>
          (case read_list levels rest of
             Inl e \<Rightarrow> Inl e
           | Inr rl \<Rightarrow> Inr ((chunk_id, level) # rl)))"

definition restore_read_list :: "int \<Rightarrow> archive \<Rightarrow> int option \<Rightarrow> error + (int \<times> Level) list" where
  "restore_read_list cs a level =
     (case restore_levels cs a level of
        Inl e \<Rightarrow> Inl e
      | Inr levels \<Rightarrow>
          if cs = 0 then Inl ZeroDivisionError
          else
            (let max_chunk = (Level_size (hd levels) - 1) div cs;
                 num_chunks = max_chunk + 1
             in read_list levels [0..num_chunks - 1]))"

text \<open>
  Lines 393--397: the target is opened with \<open>'wb'\<close>, so it starts empty. The result is the
  target file when the restore completes; the levels are only read, and closing them
  writes their index files with the same entries.
\<close>

fun restore_write :: "(bytes \<Rightarrow> string) \<Rightarrow> int \<Rightarrow> (int \<times> Level) list \<Rightarrow> bytes \<Rightarrow> error + bytes" where
  "restore_write md5 cs [] target = Inr target"
| "restore_write md5 cs ((chunk_id, level) # rest) target =
     (case Level_read md5 level chunk_id False of
        Inl e \<Rightarrow> Inl e
      | Inr d \<Rightarrow>
          if chunk_id * cs < 0 then Inl OSError
          else restore_write md5 cs rest (file_write target (nat (chunk_id * cs)) d))"

definition restore :: "(bytes \<Rightarrow> string) \<Rightarrow> int \<Rightarrow> archive \<Rightarrow> int option \<Rightarrow> error + bytes" where
  "restore md5 cs a level =
     (case restore_read_list cs a level of
        Inl e \<Rightarrow> Inl e
      | Inr rl \<Rightarrow> restore_write md5 cs rl [])"

subsection \<open>Vocabulary of the statements\<close>

text \<open>The offset \<open>Level.write\<close> seeks to: a fresh one for a new chunk id, the stored one otherwise.\<close>

definition write_offset :: "Level \<Rightarrow> int \<Rightarrow> int" where
  "write_offset lv chunk_id =
     (case map_of (index_d (index lv)) chunk_id of
        None \<Rightarrow> int (length (index_d (index lv))) * chunk_size_i (index lv)
      | Some c \<Rightarrow> offset c)"

text \<open>
  Sequences of calls on one level that starts with no files: \<open>index.get\<close>, \<open>write\<close> and
  \<open>invalidate_chunk\<close>. A call that raises leaves the level as it is at the \<open>raise\<close>, and the
  sequence goes on. \<open>inserts\<close> tells whether a call reaches \<open>Index.get\<close> and with which
  chunk id; \<open>insertion_order\<close> lists the chunk ids in the order of their first such call.
\<close>

datatype level_op = Get int | Write int bytes | Invalidate int

fun apply_op :: "(bytes \<Rightarrow> string) \<Rightarrow> level_op \<Rightarrow> Level \<Rightarrow> Level" where
  "apply_op md5 (Get k) lv = lv\<lparr>index := snd (Index_get (index lv) k)\<rparr>"
| "apply_op md5 (Write k d) lv = snd (Level_write md5 lv k d)"
| "apply_op md5 (Invalidate k) lv = Level_invalidate_chunk lv k"

definition run_ops :: "(bytes \<Rightarrow> string) \<Rightarrow> int \<Rightarrow> level_op list \<Rightarrow> Level" where
  "run_ops md5 cs ops = fold (apply_op md5) ops (Level_open cs no_files)"

fun inserts :: "int \<Rightarrow> level_op \<Rightarrow> int option" where
  "inserts cs (Get k) = Some k"
| "inserts cs (Write k d) = (if int (length d) > cs then None else Some k)"
| "inserts cs (Invalidate k) = Some k"

definition insertion_order :: "int \<Rightarrow> level_op list \<Rightarrow> int list" where
  "insertion_order cs ops = rev (remdups (rev (List.map_filter (inserts cs) ops)))"

definition offsets_by_rank :: "int \<Rightarrow> (int \<times> Chunk) list \<Rightarrow> bool" where
  "offsets_by_rank cs al = (map (\<lambda>p. offset (snd p)) al = map (\<lambda>i. int i * cs) [0..<length al])"

definition op_inv :: "int \<Rightarrow> Level \<Rightarrow> bool" where
  "op_inv cs lv = (chunk_size lv = cs \<and> chunk_size_i (index lv) = cs
                   \<and> offsets_by_rank cs (index_d (index lv)))"




text \<open>
  The restore walk in the words of the specification: the levels from the requested one to
  the newest, then Base; and the level that holds a chunk first in a walk.
\<close>

definition walk_list :: "int \<Rightarrow> archive \<Rightarrow> int option \<Rightarrow> Level list" where
  "walk_list cs a g =
     map (\<lambda>l. Level_open cs (files_of a (Some l)))
       (case g of None \<Rightarrow> [] | Some l \<Rightarrow> filter (\<lambda>x. l \<le> x) (get_levels a))
     @ [Level_open cs (files_of a None)]"

definition in_no_level :: "Level list \<Rightarrow> int \<Rightarrow> int \<Rightarrow> bool" where
  "in_no_level walk N c = (0 \<le> c \<and> c < N \<and> (\<forall>lv\<in>set walk. \<not> Index_has (index lv) c))"

definition holds_first :: "Level list \<Rightarrow> int \<Rightarrow> Level \<Rightarrow> bool" where
  "holds_first walk c lv =
     (\<exists>i<length walk. walk ! i = lv \<and> Index_has (index lv) c
        \<and> (\<forall>j<i. \<not> Index_has (index (walk ! j)) c))"

text \<open>Chunk \<open>c\<close> of an image: what \<open>seek(c * chunk_size); read(chunk_size)\<close> returns.\<close>

definition chunk :: "int \<Rightarrow> bytes \<Rightarrow> int \<Rightarrow> bytes" where
  "chunk cs src c = take (nat cs) (drop (nat (c * cs)) src)"

text \<open>
  The sizes recorded in the index files, from the oldest level to Base, and a sequence of
  \<open>backup\<close> calls on one directory with the exception, if any, of each call.
\<close>

definition level_sizes :: "archive \<Rightarrow> int list" where
  "level_sizes a =
     map (\<lambda>l. fst (index_file (files_of a (Some l)))) (get_levels a)
     @ [fst (index_file (files_of a None))]"

fun backups ::
  "(bytes \<Rightarrow> string) \<Rightarrow> int \<Rightarrow> archive \<Rightarrow> (bytes \<times> (int \<times> int) list option) list
     \<Rightarrow> error option list \<times> archive" where
  "backups md5 cs a [] = ([], a)"
| "backups md5 cs a ((src, h) # jobs) =
     (let (r, a') = backup md5 cs a src h;
          (rs, a'') = backups md5 cs a' jobs
      in (r # rs, a''))"





text \<open>
  Hints that fit a backup of \<open>img\<close> onto a directory whose Base holds \<open>prev\<close>, stated
  on bytes: every hint \<open>(offset, length)\<close> lies within the image and either starts at a
  multiple of the chunk size or ends in the chunk it starts in, and every byte of the
  image that \<open>prev\<close> does not have at the same position with the same value lies in a
  hint. A backup without hints (\<open>None\<close> or the empty list) reads every chunk, so nothing
  is asked of it. \<open>hints_accurate\<close> asks this of every backup of a sequence, the first
  one onto the empty image.
\<close>

definition hints_cover :: "int \<Rightarrow> bytes \<Rightarrow> bytes \<Rightarrow> (int \<times> int) list option \<Rightarrow> bool" where
  "hints_cover cs prev img hints =
     (hints_given hints \<longrightarrow>
        (\<forall>(ofs, len)\<in>set (the hints).
            0 \<le> ofs \<and> ofs + len \<le> int (length img)
            \<and> (ofs mod cs = 0 \<or> (ofs + len - 1) div cs = ofs div cs))
      \<and> (\<forall>p\<in>set [0..<length img].
            (p < length prev \<and> img ! p = prev ! p)
            \<or> (\<exists>(ofs, len)\<in>set (the hints). ofs \<le> int p \<and> int p < ofs + len)))"


text \<open>Sample values at which the theorems are instantiated.\<close>

definition sample_digest :: "bytes \<Rightarrow> string" where
  "sample_digest d = replicate 32 (CHR ''0'')"

definition sample_level :: Level where
  "sample_level =
     \<lparr>chunk_size = 4, data = [1, 2],
      index = \<lparr>chunk_size_i = 4, size_i = 2,
               index_d = [(7, \<lparr>checksum = sample_digest [1, 2], offset = 0, length_c = 2,
                                status = 0\<rparr>)]\<rparr>\<rparr>"

definition hex_digest :: "bytes \<Rightarrow> string" where
  "hex_digest d =
     concat (map (\<lambda>b. [''0123456789abcdef'' ! (unat b div 16),
                          ''0123456789abcdef'' ! (unat b mod 16)]) d)"

definition sample_images :: "bytes list" where
  "sample_images = [[1, 2, 3, 4, 5], [1, 2, 3, 4, 9, 9, 9, 9, 7], [0, 2, 3, 4, 9, 9, 9, 9, 7]]"

definition sample_files :: level_files where
  "sample_files = Level_close sample_level"

definition sample_archive :: archive where
  "sample_archive = snd (backups hex_digest 4 empty_archive (map (\<lambda>i. (i, None)) sample_images))"

definition sample_truncated :: archive where
  "sample_truncated =
     sample_archive\<lparr>base_files := (base_files sample_archive)
       \<lparr>index_file := (fst (index_file (base_files sample_archive)),
                        butlast (snd (index_file (base_files sample_archive))))\<rparr>\<rparr>"


definition sample_first :: archive where
  "sample_first = snd (backup hex_digest 4 empty_archive [1, 2, 3, 4, 5] None)"

definition sample_second :: archive where
  "sample_second =
     snd (backup hex_digest 4 sample_first [1, 2, 3, 4, 9, 9, 9, 9, 7] (Some [(4, 5)]))"

section \<open>Files and the index\<close>

lemma file_write_read_back:
  "d \<noteq> [] \<Longrightarrow> take (length d) (drop pos (file_write f pos d)) = d"
  by (simp add: file_write_def)

lemma file_read_write_same:
  "0 \<le> pos \<Longrightarrow> file_read (file_write f (nat pos) d) pos (int (length d)) = Inr d"
  by (cases "d = []") (simp_all add: file_read_def file_write_read_back)

lemma Index_get_has:
  "map_of (index_d ix) k = Some c \<Longrightarrow> Index_get ix k = (c, ix)"
  by (simp add: Index_get_def)

lemma Index_get_new:
  "map_of (index_d ix) k = None \<Longrightarrow>
   Index_get ix k = (Chunk_init\<lparr>offset := next_offset ix\<rparr>,
                     ix\<lparr>index_d := index_d ix @ [(k, Chunk_init\<lparr>offset := next_offset ix\<rparr>)]\<rparr>)"
  by (simp add: Index_get_def Let_def)

lemma update_append_new:
  "map_of al k = None \<Longrightarrow> AList.update k v (al @ [(k, w)]) = al @ [(k, v)]"
  by (induction al) (auto split: if_splits)

lemma update_same_offset:
  "map_of al k = Some c \<Longrightarrow> offset v = offset c \<Longrightarrow>
   map (\<lambda>p. offset (snd p)) (AList.update k v al) = map (\<lambda>p. offset (snd p)) al"
  by (induction al) (auto split: if_splits)

lemma update_present_keys:
  "map_of al k = Some c \<Longrightarrow> map fst (AList.update k v al) = map fst al"
  by (induction al) (auto split: if_splits)

lemma map_of_Some_key: "map_of al k = Some c \<Longrightarrow> k \<in> fst ` set al"
  by (metis map_of_eq_None_iff option.distinct(1))

section \<open>Writing and reading one level\<close>


lemma Level_read_present:
  "map_of (index_d (index lv)) c = Some m \<Longrightarrow> 0 \<le> offset m \<Longrightarrow> 0 \<le> length_c m \<Longrightarrow>
   Level_read md5 lv c False = Inr (take (nat (length_c m)) (drop (nat (offset m)) (data lv)))"
  by (simp add: Level_read_def Level_read_meta_def Index_has_def Index_get_has file_read_def)

lemma Level_read_meta_present:
  "map_of (index_d (index lv)) c = Some m \<Longrightarrow> Level_read_meta lv c = Inr m"
  by (simp add: Level_read_meta_def Index_has_def Index_get_has)
















lemma Level_write_size:
  "Level_size (snd (Level_write md5 lv c dt)) = Level_size lv"
  by (cases "map_of (index_d (index lv)) c")
     (auto simp: Level_write_def Level_size_def Index_get_new Index_get_has Index_put_def)












section \<open>The hint resolver\<close>

lemma chunks_from_hints_eq:
  "chunks_from_hints hints cs =
     (\<Union>(ofs, len)\<in>set hints. {ofs div cs .. ofs div cs + (len - 1) div cs})"
proof -
  have ins: "fold insert xs A = set xs \<union> A" for xs :: "int list" and A
    by (induction xs arbitrary: A) auto
  have "fold (\<lambda>(ofs, len) chunks.
             (let start_chunk = ofs div cs;
                  end_chunk = start_chunk + (len - 1) div cs
              in fold insert [start_chunk..end_chunk] chunks)) hints A
        = (\<Union>(ofs, len)\<in>set hints. {ofs div cs .. ofs div cs + (len - 1) div cs}) \<union> A" for A
    by (induction hints arbitrary: A) (auto simp: ins Let_def)
  then show ?thesis by (simp add: chunks_from_hints_def)
qed

text \<open>
  C3. The specification asks that for a hint \<open>(offset, length)\<close> with \<open>length \<ge> 1\<close> the
  result holds every chunk id \<open>k\<close> with \<open>k * chunk_size \<le> offset + length - 1\<close> and
  \<open>(k + 1) * chunk_size > offset\<close>. For the two-byte hint that starts at the last byte of
  chunk 0, chunk 1 meets both conditions, and \<open>chunks_from_hints\<close> returns only chunk 0:
  the end chunk is computed from \<open>length - 1\<close> alone.
\<close>

theorem chunks_from_hints_straddle:
  "chunks_from_hints [(CHUNK_SIZE - 1, 2)] CHUNK_SIZE = {0}
   \<and> 1 * CHUNK_SIZE \<le> (CHUNK_SIZE - 1) + 2 - 1
   \<and> (1 + 1) * CHUNK_SIZE > CHUNK_SIZE - 1
   \<and> 1 \<notin> chunks_from_hints [(CHUNK_SIZE - 1, 2)] CHUNK_SIZE"
  by (simp add: chunks_from_hints_eq CHUNK_SIZE_def)

text \<open>For a hint that starts on a chunk boundary the result does hold every such chunk id.\<close>

lemma chunks_from_hints_aligned:
  assumes "0 < cs" "(ofs, len) \<in> set hints" "1 \<le> len" "ofs mod cs = 0"
    and "k * cs \<le> ofs + len - 1" "(k + 1) * cs > ofs"
  shows "k \<in> chunks_from_hints hints cs"
proof -
  obtain q where q: "ofs = q * cs"
    using assms(4) by (metis mod_eq_0_iff_dvd dvd_def mult.commute)
  have "q \<le> k"
    using assms(6) \<open>0 < cs\<close> unfolding q by (smt (verit) mult_le_cancel_right)
  hence lo: "ofs div cs \<le> k"
    using q \<open>0 < cs\<close> by simp
  have "(k - q) * cs \<le> len - 1"
    using assms(5) unfolding q by (simp add: algebra_simps)
  hence "k - q \<le> (len - 1) div cs"
    using \<open>0 < cs\<close> by (metis zdiv_mono1 nonzero_mult_div_cancel_right less_irrefl)
  hence "k \<le> ofs div cs + (len - 1) div cs"
    using q \<open>0 < cs\<close> by simp
  with lo assms(2) show ?thesis
    unfolding chunks_from_hints_eq by force
qed

section \<open>Level.write, Level.read and invalidate\_chunk\<close>

text \<open>
  C5. \<open>Level.write(chunk_id, data)\<close> raises the chunk-too-large exception exactly when
  \<open>len(data) > chunk_size\<close>. When \<open>len(data) \<le> chunk_size\<close> it completes, the
  descriptor of \<open>chunk_id\<close> then has the checksum \<open>md5(data)\<close>, the length \<open>len(data)\<close> and
  the status \<open>EXISTS\<close>, its offset is \<open>len(index) * chunk_size\<close> for a new chunk id and the
  stored offset for an existing one, and the payload is in the data file at that offset.
  The level is one whose index was built with the level's chunk size and whose stored
  offsets are byte positions (not negative).
\<close>

theorem Level_write_spec:
  assumes same: "chunk_size_i (index lv) = chunk_size lv"
    and nonneg: "\<forall>c \<in> snd ` set (index_d (index lv)). 0 \<le> offset c"
  shows "(fst (Level_write md5 lv chunk_id d) = Some ChunkTooLarge
            \<longleftrightarrow> int (length d) > chunk_size lv)
       \<and> (int (length d) \<le> chunk_size lv \<longrightarrow>
            (let ofs = write_offset lv chunk_id;
                 (r, lv') = Level_write md5 lv chunk_id d
             in r = None
              \<and> map_of (index_d (index lv')) chunk_id =
                  Some \<lparr>checksum = md5 d, offset = ofs, length_c = int (length d),
                        status = CHUNK_STATUS_EXISTS\<rparr>
              \<and> data lv' = file_write (data lv) (nat ofs) d
              \<and> file_read (data lv') ofs (int (length d)) = Inr d))"
proof (cases "map_of (index_d (index lv)) chunk_id")
  case None
  have "int (length d) \<le> chunk_size lv \<Longrightarrow> 0 \<le> chunk_size_i (index lv)"
    using same by simp
  then have "int (length d) \<le> chunk_size lv \<Longrightarrow> 0 \<le> next_offset (index lv)"
    by (simp add: next_offset_def)
  then show ?thesis using None
    by (auto simp: Level_write_def Index_get_new Index_put_def write_offset_def Chunk_init_def
        next_offset_def update_conv' file_read_write_same Let_def)
next
  case (Some c)
  then have "(chunk_id, c) \<in> set (index_d (index lv))"
    by (rule map_of_SomeD)
  then have "0 \<le> offset c"
    using nonneg by force
  then show ?thesis using Some
    by (auto simp: Level_write_def Index_get_has Index_put_def write_offset_def
        update_conv' file_read_write_same Let_def)
qed

theorem Level_write_spec_witness:
  "fst (Level_write sample_digest sample_level 3 [9, 9, 9]) = None
   \<and> map_of (index_d (index (snd (Level_write sample_digest sample_level 3 [9, 9, 9])))) 3
       = Some \<lparr>checksum = sample_digest [9, 9, 9], offset = 4, length_c = 3, status = 0\<rparr>
   \<and> data (snd (Level_write sample_digest sample_level 3 [9, 9, 9])) = [1, 2, 0, 0, 9, 9, 9]
   \<and> map_of (index_d (index (snd (Level_write sample_digest sample_level 7 [8])))) 7
       = Some \<lparr>checksum = sample_digest [8], offset = 0, length_c = 1, status = 0\<rparr>
   \<and> data (snd (Level_write sample_digest sample_level 7 [8])) = [8, 2]
   \<and> fst (Level_write sample_digest sample_level 3 [9, 9, 9, 9, 9]) = Some ChunkTooLarge"
  using Level_write_spec [of sample_level sample_digest 3 "[9, 9, 9]"]
    Level_write_spec [of sample_level sample_digest 7 "[8]"]
    Level_write_spec [of sample_level sample_digest 3 "[9, 9, 9, 9, 9]"]
  by (simp add: sample_level_def write_offset_def file_write_def CHUNK_STATUS_EXISTS_def
      eval_nat_numeral split: prod.splits)

text \<open>
  C6. For a chunk id in the index of a level, \<open>invalidate_chunk\<close> stores the empty string as
  the checksum and leaves the offset, the length and the status of the descriptor, the
  other descriptors and the data file as they are; a strict read of the chunk then raises
  \<open>ChunkChecksumWrong\<close>, since a digest has 32 characters. The descriptor's offset is a
  position \<open>seek\<close> accepts (not negative) and its length one that \<open>read\<close> accepts (at
  least -1).
\<close>

theorem invalidate_chunk_present:
  assumes has: "map_of (index_d (index lv)) chunk_id = Some c"
    and ok: "0 \<le> offset c" "- 1 \<le> length_c c"
    and digest: "\<forall>d. length (md5 d) = 32"
  shows "index (Level_invalidate_chunk lv chunk_id) =
           (index lv)\<lparr>index_d := AList.update chunk_id (c\<lparr>checksum := ''''\<rparr>) (index_d (index lv))\<rparr>
       \<and> Level_read_meta (Level_invalidate_chunk lv chunk_id) chunk_id
           = Inr \<lparr>checksum = '''', offset = offset c, length_c = length_c c, status = status c\<rparr>
       \<and> data (Level_invalidate_chunk lv chunk_id) = data lv
       \<and> Level_read md5 (Level_invalidate_chunk lv chunk_id) chunk_id True
           = Inl (ChunkChecksumWrong chunk_id)"
proof -
  have ne: "md5 d \<noteq> ''''" for d
    using digest[rule_format, of d] by auto
  show ?thesis using has ok ne
    by (auto simp: Level_invalidate_chunk_def Index_get_has Index_put_def Level_read_def
        Level_read_meta_def Index_has_def update_conv' file_read_def Index_get_def)
qed

theorem invalidate_chunk_present_witness:
  "Level_read sample_digest sample_level 7 True = Inr [1, 2]
   \<and> Level_read_meta (Level_invalidate_chunk sample_level 7) 7
       = Inr \<lparr>checksum = '''', offset = 0, length_c = 2, status = 0\<rparr>
   \<and> data (Level_invalidate_chunk sample_level 7) = [1, 2]
   \<and> Level_read sample_digest (Level_invalidate_chunk sample_level 7) 7 True
       = Inl (ChunkChecksumWrong 7)"
proof -
  have d: "\<forall>d. length (sample_digest d) = 32"
    by (simp add: sample_digest_def)
  have r: "Level_read sample_digest sample_level 7 True = Inr [1, 2]"
    by (simp add: sample_level_def Level_read_def Level_read_meta_def Index_has_def
        Index_get_def file_read_def sample_digest_def)
  show ?thesis
    using r invalidate_chunk_present [of sample_level 7
        "\<lparr>checksum = sample_digest [1, 2], offset = 0, length_c = 2, status = 0\<rparr>"
        sample_digest, OF _ _ _ d]
    by (simp add: sample_level_def)
qed

text \<open>
  C10. For a chunk id that is not in the index of a level, \<open>invalidate_chunk\<close> does not
  raise: through \<open>Index.get\<close> it appends a new descriptor for the id, with the offset
  \<open>len(index) * chunk_size\<close>, the empty checksum, the length 0 and the status -1; the data
  file is not written, and the index file written when the level is closed has a line for
  the id.
\<close>

theorem invalidate_chunk_absent:
  assumes "\<not> Index_has (index lv) chunk_id"
  shows "(let lv' = Level_invalidate_chunk lv chunk_id;
              fresh = \<lparr>checksum = '''',
                        offset = int (length (index_d (index lv))) * chunk_size_i (index lv),
                        length_c = 0, status = - 1\<rparr>
          in index_d (index lv') = index_d (index lv) @ [(chunk_id, fresh)]
           \<and> data lv' = data lv
           \<and> Index_has (index lv') chunk_id
           \<and> (chunk_id, fresh) \<in> set (snd (index_file (Level_close lv'))))"
proof -
  have none: "map_of (index_d (index lv)) chunk_id = None"
    using assms by (simp add: Index_has_def)
  have idx: "index_d (index (Level_invalidate_chunk lv chunk_id)) = index_d (index lv) @
     [(chunk_id, \<lparr>checksum = [],
                   offset = int (length (index_d (index lv))) * chunk_size_i (index lv),
                   length_c = 0, status = - 1\<rparr>)]"
    using none
    by (simp add: Level_invalidate_chunk_def Index_get_new Index_put_def update_append_new
        Chunk_init_def next_offset_def)
  show ?thesis
    using none idx
    apply (simp add: Let_def Index_has_def map_add_def Level_close_def Index_write_def)
    apply (auto simp: Level_invalidate_chunk_def Index_get_new Index_put_def)
    done
qed

theorem invalidate_chunk_absent_witness:
  "\<not> Index_has (index sample_level) 3
   \<and> index_d (index (Level_invalidate_chunk sample_level 3)) =
       index_d (index sample_level)
       @ [(3, \<lparr>checksum = '''', offset = 4, length_c = 0, status = - 1\<rparr>)]
   \<and> data (Level_invalidate_chunk sample_level 3) = [1, 2]
   \<and> snd (index_file (Level_close (Level_invalidate_chunk sample_level 3))) =
       [(3, \<lparr>checksum = '''', offset = 4, length_c = 0, status = - 1\<rparr>),
        (7, \<lparr>checksum = sample_digest [1, 2], offset = 0, length_c = 2, status = 0\<rparr>)]"
proof -
  have h: "\<not> Index_has (index sample_level) 3"
    by (simp add: sample_level_def Index_has_def)
  show ?thesis
    using h invalidate_chunk_absent [OF h]
    by (simp add: sample_level_def Let_def Level_close_def Index_write_def)
qed

section \<open>Offsets follow the insertion rank\<close>

lemma offsets_by_rank_snoc:
  "offsets_by_rank cs al \<Longrightarrow> offset c = int (length al) * cs \<Longrightarrow>
   offsets_by_rank cs (al @ [(k, c)])"
  by (simp add: offsets_by_rank_def)

lemma offsets_by_rank_update:
  "offsets_by_rank cs al \<Longrightarrow> map_of al k = Some c \<Longrightarrow> offset v = offset c \<Longrightarrow>
   offsets_by_rank cs (AList.update k v al)"
  using update_present_keys[of al k c v, THEN arg_cong, of length]
  by (simp add: offsets_by_rank_def update_same_offset)

lemma keys_Index_get:
  "map fst (index_d (snd (Index_get ix k))) =
     (if k \<in> set (map fst (index_d ix)) then map fst (index_d ix) else map fst (index_d ix) @ [k])"
proof (cases "map_of (index_d ix) k")
  case None
  then show ?thesis by (simp add: Index_get_new map_of_eq_None_iff)
next
  case (Some c)
  then have "k \<in> fst ` set (index_d ix)" by (rule map_of_Some_key)
  then show ?thesis using Some by (simp add: Index_get_has)
qed

lemma apply_op_keys:
  "map fst (index_d (index (apply_op md5 op lv))) =
     (case inserts (chunk_size lv) op of None \<Rightarrow> map fst (index_d (index lv))
      | Some k \<Rightarrow> if k \<in> set (map fst (index_d (index lv))) then map fst (index_d (index lv))
                  else map fst (index_d (index lv)) @ [k])"
proof (cases op)
  case (Get k)
  then show ?thesis by (simp add: keys_Index_get)
next
  case (Write k d)
  show ?thesis
  proof (cases "map_of (index_d (index lv)) k")
    case None
    then show ?thesis using Write
      by (auto simp: Level_write_def Index_get_new Index_put_def update_append_new
          map_of_eq_None_iff)
  next
    case (Some c)
    then have "k \<in> fst ` set (index_d (index lv))" by (rule map_of_Some_key)
    then show ?thesis using Write Some
      by (auto simp: Level_write_def Index_get_has Index_put_def update_present_keys)
  qed
next
  case (Invalidate k)
  show ?thesis
  proof (cases "map_of (index_d (index lv)) k")
    case None
    then show ?thesis using Invalidate
      by (auto simp: Level_invalidate_chunk_def Index_get_new Index_put_def update_append_new
          map_of_eq_None_iff)
  next
    case (Some c)
    then have "k \<in> fst ` set (index_d (index lv))" by (rule map_of_Some_key)
    then show ?thesis using Invalidate Some
      by (auto simp: Level_invalidate_chunk_def Index_get_has Index_put_def update_present_keys)
  qed
qed

lemma apply_op_inv: "op_inv cs lv \<Longrightarrow> op_inv cs (apply_op md5 op lv)"
proof (cases op)
  case (Get k)
  assume "op_inv cs lv"
  then show ?thesis using Get
    by (cases "map_of (index_d (index lv)) k")
       (auto simp: op_inv_def Index_get_def Let_def next_offset_def Chunk_init_def
          intro!: offsets_by_rank_snoc)
next
  case (Write k d)
  assume "op_inv cs lv"
  then show ?thesis using Write
    by (cases "map_of (index_d (index lv)) k")
       (auto simp: op_inv_def Level_write_def Index_get_new Index_get_has Index_put_def
          update_append_new next_offset_def Chunk_init_def
          intro!: offsets_by_rank_snoc offsets_by_rank_update)
next
  case (Invalidate k)
  assume "op_inv cs lv"
  then show ?thesis using Invalidate
    by (cases "map_of (index_d (index lv)) k")
       (auto simp: op_inv_def Level_invalidate_chunk_def Index_get_new Index_get_has Index_put_def
          update_append_new next_offset_def Chunk_init_def
          intro!: offsets_by_rank_snoc offsets_by_rank_update)
qed

lemma run_ops_snoc: "run_ops md5 cs (ops @ [op]) = apply_op md5 op (run_ops md5 cs ops)"
  by (simp add: run_ops_def)

lemma run_ops_inv: "op_inv cs (run_ops md5 cs ops)"
proof (induction ops rule: rev_induct)
  case Nil
  show ?case
    by (simp add: run_ops_def op_inv_def Level_open_def Index_read_def Index_init_def no_files_def
        offsets_by_rank_def)
next
  case (snoc op ops)
  then show ?case by (simp add: run_ops_snoc apply_op_inv)
qed

lemma insertion_order_snoc:
  "insertion_order cs (ops @ [op]) =
     (case inserts cs op of None \<Rightarrow> insertion_order cs ops
      | Some k \<Rightarrow> if k \<in> set (insertion_order cs ops) then insertion_order cs ops
                  else insertion_order cs ops @ [k])"
  by (auto simp: insertion_order_def List.map_filter_def split: option.splits)

lemma run_ops_keys: "map fst (index_d (index (run_ops md5 cs ops))) = insertion_order cs ops"
proof (induction ops rule: rev_induct)
  case Nil
  show ?case
    by (simp add: run_ops_def Level_open_def Index_read_def Index_init_def no_files_def
        insertion_order_def List.map_filter_def)
next
  case (snoc op ops)
  have cs: "chunk_size (run_ops md5 cs ops) = cs"
    using run_ops_inv[of cs md5 ops] by (simp add: op_inv_def)
  show ?case
    by (simp only: run_ops_snoc apply_op_keys insertion_order_snoc cs snoc.IH)
qed

lemma Level_write_keeps_offset:
  "map_of (index_d (index lv)) k = Some c \<Longrightarrow>
   map_option offset (map_of (index_d (index (snd (Level_write md5 lv k d)))) k) = Some (offset c)"
  by (auto simp: Level_write_def Index_get_has Index_put_def update_conv')

text \<open>
  C7. After any sequence of \<open>index.get\<close>, \<open>write\<close> and \<open>invalidate_chunk\<close> calls on a level
  that starts empty, the keys of the index are the chunk ids in the order of their
  insertion, each once, the descriptor at rank \<open>i\<close> of that order has the offset
  \<open>i * chunk_size\<close>, and a further write to a chunk id of the index keeps the offset of its
  descriptor.
\<close>

theorem offset_is_rank_times_chunk_size:
  "(let ix = index (run_ops md5 cs ops)
    in map fst (index_d ix) = insertion_order cs ops
     \<and> distinct (insertion_order cs ops)
     \<and> (\<forall>i < length (index_d ix). offset (snd (index_d ix ! i)) = int i * cs)
     \<and> (\<forall>k c d. map_of (index_d ix) k = Some c \<longrightarrow>
          map_option offset
            (map_of (index_d (index (snd (Level_write md5 (run_ops md5 cs ops) k d)))) k)
            = Some (offset c)))"
proof -
  have "offsets_by_rank cs (index_d (index (run_ops md5 cs ops)))"
    using run_ops_inv[of cs md5 ops] by (simp add: op_inv_def)
  then have "\<forall>i < length (index_d (index (run_ops md5 cs ops))).
      offset (snd (index_d (index (run_ops md5 cs ops)) ! i)) = int i * cs"
    unfolding offsets_by_rank_def
    by (metis (no_types, lifting) length_map nth_map nth_upt add_0)
  moreover have "distinct (insertion_order cs ops)"
    by (simp add: insertion_order_def)
  moreover have "\<forall>k c d. map_of (index_d (index (run_ops md5 cs ops))) k = Some c \<longrightarrow>
          map_option offset
            (map_of (index_d (index (snd (Level_write md5 (run_ops md5 cs ops) k d)))) k)
            = Some (offset c)"
    using Level_write_keeps_offset by blast
  ultimately show ?thesis
    unfolding Let_def using run_ops_keys[of md5 cs ops] by blast
qed

theorem offset_is_rank_times_chunk_size_witness:
  "map (\<lambda>p. (fst p, offset (snd p)))
     (index_d (index (run_ops sample_digest 4
        [Write 5 [1], Get 2, Write 5 [2, 3], Write 8 [1, 1, 1, 1, 1], Invalidate 9])))
     = [(5, 0), (2, 4), (9, 8)]
   \<and> insertion_order 4 [Write 5 [1], Get 2, Write 5 [2, 3], Write 8 [1, 1, 1, 1, 1], Invalidate 9]
     = [5, 2, 9]"
  using offset_is_rank_times_chunk_size [of sample_digest 4
      "[Write 5 [1], Get 2, Write 5 [2, 3], Write 8 [1, 1, 1, 1, 1], Invalidate 9]"]
  by (simp add: run_ops_def Level_open_def Index_read_def Index_init_def no_files_def
      Level_write_def Index_get_def Index_put_def Level_invalidate_chunk_def next_offset_def
      Chunk_init_def insertion_order_def List.map_filter_def Let_def)

section \<open>Backup: sizes and the directory\<close>

lemma Level_write_map_of_other:
  "k \<noteq> c \<Longrightarrow> map_of (index_d (index (snd (Level_write md5 lv c dt)))) k
     = map_of (index_d (index lv)) k"
  by (cases "map_of (index_d (index lv)) c")
     (auto simp: Level_write_def Index_get_new Index_get_has Index_put_def update_conv' map_add_def
        split: option.splits)

lemma Level_write_map_of_same:
  "Level_write md5 lv c dt = (None, lv') \<Longrightarrow>
   \<exists>m. map_of (index_d (index lv')) c = Some m \<and> checksum m = md5 dt"
  by (cases "map_of (index_d (index lv)) c")
     (auto simp: Level_write_def Index_get_new Index_get_has Index_put_def update_conv'
        split: if_splits)


lemma evict_and_write_size:
  "evict_and_write md5 b n c d = (r, b', n') \<Longrightarrow>
   Level_size b' = Level_size b \<and> Level_size n' = Level_size n"
  unfolding evict_and_write_def
  by (auto split: sum.splits if_splits prod.splits option.splits
      simp: Level_write_size[of md5 _ c, unfolded snd_conv]
      dest!: arg_cong[of "Level_write _ _ _ _" _ snd])

lemma backup_chunk_size:
  "backup_chunk md5 cs src b n c = (r, b', n') \<Longrightarrow>
   Level_size b' = Level_size b \<and> Level_size n' = Level_size n"
  unfolding backup_chunk_def
  by (auto split: sum.splits if_splits simp: Let_def dest: evict_and_write_size)

lemma backup_loop_size:
  "backup_loop md5 cs src cl b n = (r, b', n') \<Longrightarrow>
   Level_size b' = Level_size b \<and> Level_size n' = Level_size n"
proof (induction cl arbitrary: b n)
  case Nil
  then show ?case by simp
next
  case (Cons c cl)
  obtain r1 b1 n1 where c1: "backup_chunk md5 cs src b n c = (r1, b1, n1)"
    by (metis prod_cases3)
  show ?case
  proof (cases r1)
    case None
    then have "backup_loop md5 cs src cl b1 n1 = (r, b', n')"
      using Cons.prems c1 by simp
    from Cons.IH[OF this] backup_chunk_size[OF c1] show ?thesis by simp
  next
    case (Some e)
    then have "b' = b1" "n' = n1" using Cons.prems c1 by simp_all
    then show ?thesis using backup_chunk_size[OF c1] by simp
  qed
qed

lemma Level_set_size_Inr:
  "Level_set_size lv s = Inr lv' \<Longrightarrow>
   Level_size lv \<le> s \<and> Level_size lv' = s \<and> lv' = lv\<lparr>index := (index lv)\<lparr>size_i := s\<rparr>\<rparr>"
  by (auto simp: Level_set_size_def Level_size_def split: if_splits)

lemma Level_set_size_Inl:
  "Level_set_size lv s = Inl e \<Longrightarrow> s < Level_size lv \<and> e = ShrinkUnsupported"
  by (auto simp: Level_set_size_def Level_size_def split: if_splits)

lemma backup_body_zero:
  "backup_body md5 0 src h b n = (Some ZeroDivisionError, b, n)"
  by (simp add: backup_body_def)

lemma backup_zero_chunk_size:
  "backup md5 0 a src h =
     (Some ZeroDivisionError,
      a\<lparr>base_files := Level_close (Level_open 0 (files_of a None)),
        overlay_files := AList.update (get_next_level a)
          (Level_close (Level_open 0 (files_of a (Some (get_next_level a))))) (overlay_files a)\<rparr>)"
  by (simp add: backup_def backup_body_zero Let_def)

lemma backup_body_size:
  assumes "backup_body md5 cs src h b n = (r, b', n')"
    and "Level_size n = 0" "0 \<le> Level_size b" "cs = 0 \<Longrightarrow> Level_size b = 0"
  shows "Level_size n' = Level_size b" "Level_size b \<le> Level_size b'"
    "r = None \<Longrightarrow> Level_size b' = int (length src)" "0 \<le> Level_size b'"
    "cs = 0 \<Longrightarrow> Level_size b' = 0"
proof -
  have "Level_size n' = Level_size b \<and> Level_size b \<le> Level_size b'
     \<and> (r = None \<longrightarrow> Level_size b' = int (length src)) \<and> (cs = 0 \<longrightarrow> Level_size b' = 0)"
  proof (cases "cs = 0")
    case True
    then show ?thesis using assms by (auto simp: backup_body_zero)
  next
    case cs: False
    obtain n1 where n1: "Level_set_size n (Level_size b) = Inr n1"
      using assms(2,3) by (cases "Level_set_size n (Level_size b)")
        (auto dest: Level_set_size_Inl)
    have sn1: "Level_size n1 = Level_size b" using Level_set_size_Inr[OF n1] by blast
    show ?thesis
    proof (cases "Level_set_size b (int (length src))")
      case (Inl e)
      then show ?thesis using assms(1) n1 sn1 cs
        by (auto simp: backup_body_def Let_def)
    next
      case (Inr b1)
      have sb1: "Level_size b \<le> int (length src)" "Level_size b1 = int (length src)"
        using Level_set_size_Inr[OF Inr] by blast+
      show ?thesis
      proof (cases "hints_given h \<and> Max (set (map (\<lambda>h. fst h + snd h) (the h))) > int (length src)")
        case True
        then show ?thesis using assms(1) n1 sn1 Inr sb1 cs
          by (auto simp: backup_body_def Let_def)
      next
        case False
        then have "backup_loop md5 cs src (read_chunks h cs (ceil_div (int (length src)) cs)) b1 n1
            = (r, b', n')"
          using assms(1) n1 Inr cs by (auto simp: backup_body_def Let_def)
        from backup_loop_size[OF this] show ?thesis using sn1 sb1 cs by simp
      qed
    qed
  qed
  then show "Level_size n' = Level_size b" "Level_size b \<le> Level_size b'"
    "r = None \<Longrightarrow> Level_size b' = int (length src)" "0 \<le> Level_size b'"
    "cs = 0 \<Longrightarrow> Level_size b' = 0"
    using assms(3) by auto
qed

lemma get_levels_sorted: "sorted (get_levels a)" "distinct (get_levels a)"
  "set (get_levels a) = fst ` set (overlay_files a)"
  by (simp_all add: get_levels_def)

lemma sorted_le_last: "sorted xs \<Longrightarrow> x \<in> set xs \<Longrightarrow> x \<le> last (xs :: int list)"
  by (induction xs) auto

lemma get_next_level_greater: "l \<in> set (get_levels a) \<Longrightarrow> l < get_next_level a"
proof -
  assume l: "l \<in> set (get_levels a)"
  then have ne: "get_levels a \<noteq> []" by auto
  have "l \<le> last (get_levels a)"
    using get_levels_sorted(1) l by (rule sorted_le_last)
  then show ?thesis using ne by (simp add: get_next_level_def Let_def)
qed

lemma get_next_level_fresh: "map_of (overlay_files a) (get_next_level a) = None"
  using get_next_level_greater[of "get_next_level a" a]
  by (auto simp: map_of_eq_None_iff get_levels_sorted(3))

lemma update_fresh: "map_of al k = None \<Longrightarrow> AList.update k v al = al @ [(k, v)]"
  by (induction al) (auto split: if_splits)

lemma get_levels_snoc:
  assumes "\<forall>l\<in>set (get_levels a). l < k"
  shows "get_levels (a\<lparr>base_files := bf, overlay_files := overlay_files a @ [(k, v)]\<rparr>)
           = get_levels a @ [k]"
proof -
  have "sorted (get_levels a @ [k])" "distinct (get_levels a @ [k])"
    using assms get_levels_sorted(1,2)[of a] by (auto simp: sorted_append less_imp_le)
  moreover have "set (get_levels a @ [k])
      = set (get_levels (a\<lparr>base_files := bf, overlay_files := overlay_files a @ [(k, v)]\<rparr>))"
    by (auto simp: get_levels_sorted(3))
  ultimately show ?thesis
    by (intro sorted_distinct_set_unique get_levels_sorted(1,2)) simp_all
qed

lemma backup_unfold:
  "backup md5 cs a src h =
     (case backup_body md5 cs src h (Level_open cs (base_files a)) (Level_open cs no_files) of
        (r, b, n) \<Rightarrow> (r, a\<lparr>base_files := Level_close b,
                            overlay_files := overlay_files a @ [(get_next_level a, Level_close n)]\<rparr>))"
  by (simp add: backup_def Let_def files_of_def get_next_level_fresh update_fresh
      split: prod.splits)

lemma Level_size_open: "Level_size (Level_open cs f) = fst (index_file f)"
  by (simp add: Level_size_def Level_open_def Index_read_def)

lemma Level_size_close: "fst (index_file (Level_close lv)) = Level_size lv"
  by (simp add: Level_size_def Level_close_def Index_write_def)

lemma files_of_old_level:
  "l \<in> set (get_levels a) \<Longrightarrow>
   files_of (a\<lparr>base_files := bf, overlay_files := overlay_files a @ [(k, v)]\<rparr>) (Some l)
     = files_of a (Some l)"
  by (auto simp: files_of_def get_levels_sorted(3) map_add_def map_of_eq_None_iff
      split: option.splits)

lemma files_of_new_level:
  "map_of (overlay_files a) k = None \<Longrightarrow>
   files_of (a\<lparr>base_files := bf, overlay_files := overlay_files a @ [(k, v)]\<rparr>) (Some k) = v"
  by (simp add: files_of_def map_add_def)

lemma backup_level_sizes:
  assumes "backup md5 cs a src h = (r, a')" and "0 \<le> fst (index_file (base_files a))"
    and "cs = 0 \<Longrightarrow> fst (index_file (base_files a)) = 0"
  shows "\<exists>s. level_sizes a' = level_sizes a @ [s] \<and> fst (index_file (base_files a)) \<le> s
           \<and> (r = None \<longrightarrow> s = int (length src)) \<and> (cs = 0 \<longrightarrow> s = 0)"
    and "fst (index_file (files_of a' (Some (get_next_level a)))) = fst (index_file (base_files a))"
    and "get_levels a' = get_levels a @ [get_next_level a]"
proof -
  obtain b n where body: "backup_body md5 cs src h (Level_open cs (base_files a))
      (Level_open cs no_files) = (r, b, n)"
    and a': "a' = a\<lparr>base_files := Level_close b,
               overlay_files := overlay_files a @ [(get_next_level a, Level_close n)]\<rparr>"
    using assms(1) by (auto simp: backup_unfold split: prod.splits)
  have sz: "Level_size n = fst (index_file (base_files a))"
    "fst (index_file (base_files a)) \<le> Level_size b"
    "r = None \<Longrightarrow> Level_size b = int (length src)"
    "cs = 0 \<Longrightarrow> Level_size b = 0"
    using backup_body_size[OF body] assms(2,3)
    by (simp_all add: Level_size_open no_files_def)
  have lv: "get_levels a' = get_levels a @ [get_next_level a]"
    unfolding a' by (rule get_levels_snoc) (simp add: get_next_level_greater)
  have old: "map (\<lambda>l. fst (index_file (files_of a' (Some l)))) (get_levels a)
      = map (\<lambda>l. fst (index_file (files_of a (Some l)))) (get_levels a)"
    unfolding a' by (simp add: files_of_old_level cong: map_cong)
  have new: "files_of a' (Some (get_next_level a)) = Level_close n"
    unfolding a' by (rule files_of_new_level) (rule get_next_level_fresh)
  have base: "files_of a' None = Level_close b"
    unfolding a' by (simp add: files_of_def)
  have fb: "files_of a None = base_files a"
    by (simp add: files_of_def)
  have "level_sizes a' = level_sizes a @ [Level_size b]"
    by (simp add: level_sizes_def lv old new base Level_size_close sz(1) fb)
  then show "\<exists>s. level_sizes a' = level_sizes a @ [s] \<and> fst (index_file (base_files a)) \<le> s
           \<and> (r = None \<longrightarrow> s = int (length src)) \<and> (cs = 0 \<longrightarrow> s = 0)"
    using sz by blast
  show "fst (index_file (files_of a' (Some (get_next_level a)))) = fst (index_file (base_files a))"
    by (simp add: new Level_size_close sz(1))
  show "get_levels a' = get_levels a @ [get_next_level a]" by (rule lv)
qed

lemma last_level_sizes: "last (level_sizes a) = fst (index_file (base_files a))"
  by (simp add: level_sizes_def files_of_def)

lemma backup_sizes_sorted:
  assumes "sorted (0 # level_sizes a)" and "cs = 0 \<Longrightarrow> fst (index_file (base_files a)) = 0"
  shows "sorted (0 # level_sizes (snd (backup md5 cs a src h)))"
    and "cs = 0 \<Longrightarrow> fst (index_file (base_files (snd (backup md5 cs a src h)))) = 0"
proof -
  have nn: "0 \<le> fst (index_file (base_files a))"
    using assms(1) last_level_sizes[of a] by (simp add: level_sizes_def)
  obtain r a' where b: "backup md5 cs a src h = (r, a')" by fastforce
  obtain s where s: "level_sizes a' = level_sizes a @ [s]" "fst (index_file (base_files a)) \<le> s"
    "cs = 0 \<longrightarrow> s = 0"
    using backup_level_sizes(1)[OF b nn assms(2)] by blast
  have "\<forall>x\<in>set (level_sizes a). x \<le> last (level_sizes a)"
    using assms(1) by (simp add: level_sizes_def sorted_append files_of_def)
  then show "sorted (0 # level_sizes (snd (backup md5 cs a src h)))"
    using assms(1) s nn by (auto simp: b sorted_append last_level_sizes)
  show "fst (index_file (base_files (snd (backup md5 cs a src h)))) = 0" if "cs = 0"
    unfolding b using s(1,3) that last_level_sizes[of a'] by simp
qed

lemma backups_Cons_snd:
  "snd (backups md5 cs a ((src, h) # jobs))
     = snd (backups md5 cs (snd (backup md5 cs a src h)) jobs)"
  by (simp add: case_prod_beta Let_def)


lemma backups_sizes_sorted:
  "sorted (0 # level_sizes a) \<Longrightarrow> (cs = 0 \<Longrightarrow> fst (index_file (base_files a)) = 0) \<Longrightarrow>
   sorted (0 # level_sizes (snd (backups md5 cs a jobs)))
   \<and> (cs = 0 \<longrightarrow> fst (index_file (base_files (snd (backups md5 cs a jobs)))) = 0)"
proof (induction jobs arbitrary: a)
  case Nil
  then show ?case by simp
next
  case (Cons j jobs)
  obtain src h where j: "j = (src, h)" by fastforce
  note step = backup_sizes_sorted[OF Cons.prems(1) Cons.prems(2)]
  have 1: "sorted (0 # level_sizes (snd (backup md5 cs a src h)))"
    by (rule step(1))
  have 2: "cs = 0 \<Longrightarrow> fst (index_file (base_files (snd (backup md5 cs a src h)))) = 0"
    by (rule step(2))
  show ?case
    unfolding j backups_Cons_snd by (rule Cons.IH[OF 1 2])
qed

text \<open>
  C8. After any sequence of backups of opened sources into an empty directory, at any
  chunk size and whether they complete or raise, the sizes recorded in the levels are
  monotone from level 0 to the newest level and to Base. A further backup records the old size of Base in the new level and leaves
  Base with a size that is not smaller; and \<open>set_size(n)\<close> raises the shrinking
  exception whenever \<open>n\<close> is smaller than the recorded size.
\<close>

theorem sizes_monotone:
  "(let a = snd (backups md5 cs empty_archive jobs);
        a' = snd (backup md5 cs a src h)
    in sorted (level_sizes a)
     \<and> fst (index_file (files_of a' (Some (get_next_level a)))) = fst (index_file (files_of a None))
     \<and> fst (index_file (files_of a None)) \<le> fst (index_file (files_of a' None)))
   \<and> (\<forall>lv n. n < Level_size lv \<longrightarrow> Level_set_size lv n = Inl ShrinkUnsupported)"
proof -
  define a where "a = snd (backups md5 cs empty_archive jobs)"
  define a' where "a' = snd (backup md5 cs a src h)"
  have "sorted (0 # level_sizes empty_archive)"
    by (simp add: level_sizes_def empty_archive_def get_levels_def files_of_def no_files_def)
  moreover have "fst (index_file (base_files empty_archive)) = 0"
    by (simp add: empty_archive_def no_files_def)
  ultimately have inv: "sorted (0 # level_sizes a)
      \<and> (cs = 0 \<longrightarrow> fst (index_file (base_files a)) = 0)"
    unfolding a_def by (intro backups_sizes_sorted) simp_all
  then have s: "sorted (0 # level_sizes a)" and z: "cs = 0 \<Longrightarrow> fst (index_file (base_files a)) = 0"
    by simp_all
  then have nn: "0 \<le> fst (index_file (base_files a))"
    using last_level_sizes[of a] by (simp add: level_sizes_def)
  obtain r where b: "backup md5 cs a src h = (r, a')"
    unfolding a'_def by (metis prod.collapse)
  have 1: "fst (index_file (files_of a' (Some (get_next_level a)))) = fst (index_file (files_of a None))"
    using backup_level_sizes(2)[OF b nn z] by (simp add: files_of_def)
  obtain s' where "level_sizes a' = level_sizes a @ [s']" "fst (index_file (base_files a)) \<le> s'"
    using backup_level_sizes(1)[OF b nn z] by blast
  then have 2: "fst (index_file (files_of a None)) \<le> fst (index_file (files_of a' None))"
    using last_level_sizes[of a'] by (simp add: files_of_def)
  have 3: "\<forall>lv n. n < Level_size lv \<longrightarrow> Level_set_size lv n = Inl ShrinkUnsupported"
    by (simp add: Level_set_size_def Level_size_def)
  show ?thesis
    unfolding Let_def a_def[symmetric] a'_def[symmetric] using s 1 2 3 by simp
qed

theorem sizes_monotone_witness:
  "level_sizes (snd (backups sample_digest 4 empty_archive
       [([1, 2, 3, 4, 5], None), ([1, 2, 3, 4, 9, 9, 9, 9, 7], None), ([0], None)]))
     = [0, 5, 9, 9]
   \<and> fst (backups sample_digest 4 empty_archive
       [([1, 2, 3, 4, 5], None), ([1, 2, 3, 4, 9, 9, 9, 9, 7], None), ([0], None)])
     = [None, None, Some ShrinkUnsupported]
   \<and> sorted (level_sizes (snd (backups sample_digest 4 empty_archive
       [([1, 2, 3, 4, 5], None), ([1, 2, 3, 4, 9, 9, 9, 9, 7], None), ([0], None)])))
   \<and> Level_set_size sample_level 1 = Inl ShrinkUnsupported"
proof -
  have 1: "level_sizes (snd (backups sample_digest 4 empty_archive
       [([1, 2, 3, 4, 5], None), ([1, 2, 3, 4, 9, 9, 9, 9, 7], None), ([0], None)]))
     = [0, 5, 9, 9]"
    by code_simp
  have 2: "fst (backups sample_digest 4 empty_archive
       [([1, 2, 3, 4, 5], None), ([1, 2, 3, 4, 9, 9, 9, 9, 7], None), ([0], None)])
     = [None, None, Some ShrinkUnsupported]"
    by code_simp
  have 3: "(1::int) < Level_size sample_level"
    by (simp add: sample_level_def Level_size_def)
  from sizes_monotone [of sample_digest 4
      "[([1, 2, 3, 4, 5], None), ([1, 2, 3, 4, 9, 9, 9, 9, 7], None), ([0], None)]" "[]" None]
  have "sorted (level_sizes (snd (backups sample_digest 4 empty_archive
       [([1, 2, 3, 4, 5], None), ([1, 2, 3, 4, 9, 9, 9, 9, 7], None), ([0], None)])))"
    and "Level_set_size sample_level 1 = Inl ShrinkUnsupported"
    using 3 unfolding Let_def by blast+
  then show ?thesis using 1 2 by simp
qed

section \<open>Restore: the walk and the read list\<close>

lemma dropWhile_sorted_from:
  "sorted xs \<Longrightarrow> distinct xs \<Longrightarrow> g \<in> set xs \<Longrightarrow>
   dropWhile (\<lambda>x. x \<noteq> g) xs = filter (\<lambda>x. g \<le> x) (xs :: int list)"
proof (induction xs)
  case Nil
  then show ?case by simp
next
  case (Cons x xs)
  show ?case
  proof (cases "x = g")
    case True
    then have "\<forall>y\<in>set xs. g \<le> y" using Cons.prems by auto
    then have "filter (\<lambda>x. g \<le> x) xs = xs" by (simp add: filter_id_conv)
    then show ?thesis using True by simp
  next
    case False
    then have "g \<in> set xs" using Cons.prems by simp
    then have "x < g" using Cons.prems False by force
    then show ?thesis using Cons False \<open>g \<in> set xs\<close> by simp
  qed
qed

lemma restore_levels_walk:
  "(case g of None \<Rightarrow> True | Some l \<Rightarrow> l \<in> set (get_levels a)) \<Longrightarrow>
   restore_levels cs a g = Inr (walk_list cs a g)"
  by (cases g)
     (simp_all add: restore_levels_def walk_list_def Let_def dropWhile_sorted_from get_levels_sorted)

lemma restore_levels_not_found:
  "l \<notin> set (get_levels a) \<Longrightarrow> restore_levels cs a (Some l) = Inl (LevelNotFound l)"
  by (simp add: restore_levels_def)

lemma num_chunks_ceiling:
  assumes cs: "0 < cs"
  shows "(L - 1) div cs + 1 = \<lceil>real_of_int L / real_of_int cs\<rceil>"
proof -
  define q where "q = (L - 1) div cs"
  define r where "r = (L - 1) mod cs"
  have r: "0 \<le> r" "r < cs" using cs by (simp_all add: r_def)
  have "L - 1 = q * cs + r" by (simp add: q_def r_def)
  then have "- L = (cs - 1 - r) + (- (q + 1)) * cs" by (simp add: algebra_simps)
  then have "(- L) div cs = (cs - 1 - r) div cs + (- (q + 1))"
    using cs by (metis div_mult_self1 less_irrefl add.commute)
  moreover have "(cs - 1 - r) div cs = 0"
    using r by (simp add: div_pos_pos_trivial)
  ultimately have "- ((- L) div cs) = q + 1" by simp
  then show ?thesis by (simp add: ceiling_divide_eq_div q_def)
qed

lemma restore_zero_chunk_size:
  "restore_levels 0 a g = Inr walk \<Longrightarrow> restore md5 0 a g = Inl ZeroDivisionError"
  by (simp add: restore_def restore_read_list_def)

lemma read_list_Inr:
  "read_list levels cs = Inr rl \<Longrightarrow>
   map fst rl = cs \<and> (\<forall>(c, lv)\<in>set rl. find (\<lambda>level. Index_has (index level) c) levels = Some lv)"
  by (induction cs arbitrary: rl) (auto split: option.splits sum.splits)

lemma read_list_Inl:
  "read_list levels cs = Inl e \<Longrightarrow>
   \<exists>c\<in>set cs. e = ChunkMissing c \<and> find (\<lambda>level. Index_has (index level) c) levels = None"
  by (induction cs) (auto split: option.splits sum.splits)

lemma find_holds_first:
  "find (\<lambda>level. Index_has (index level) c) walk = Some lv \<Longrightarrow> holds_first walk c lv"
  unfolding holds_first_def find_Some_iff by blast

lemma filter_sort_remdups_cong:
  assumes "{x \<in> set xs. P x} = {x \<in> set ys. P x}"
  shows "filter P (sort (remdups xs)) = filter P (sort (remdups (ys :: int list)))"
proof -
  have "sorted (filter P (sort (remdups xs)))" "distinct (filter P (sort (remdups xs)))"
    "sorted (filter P (sort (remdups ys)))" "distinct (filter P (sort (remdups ys)))"
    by (simp_all add: sorted_wrt_filter)
  moreover have "set (filter P (sort (remdups xs))) = set (filter P (sort (remdups ys)))"
    using assms by auto
  ultimately show ?thesis by (metis sorted_distinct_set_unique)
qed

lemma Level_read_not_missing: "Level_read md5 lv c r \<noteq> Inl (ChunkMissing k)"
  by (auto simp: Level_read_def Level_read_meta_def file_read_def split: sum.splits if_splits)

lemma restore_write_not_missing: "restore_write md5 cs rl t \<noteq> Inl (ChunkMissing k)"
proof (induction rl arbitrary: t)
  case Nil
  then show ?case by simp
next
  case (Cons p rl)
  obtain c lv where p: "p = (c, lv)" by (cases p)
  show ?case
    using Cons.IH Level_read_not_missing[of md5 lv c False k]
    by (auto simp: p split: sum.splits)
qed

lemma read_list_first_missing:
  "read_list levels cl = Inl e \<Longrightarrow>
   \<exists>pre c post. cl = pre @ c # post \<and> e = ChunkMissing c
      \<and> find (\<lambda>level. Index_has (index level) c) levels = None
      \<and> (\<forall>k\<in>set pre. find (\<lambda>level. Index_has (index level) k) levels \<noteq> None)"
proof (induction cl)
  case Nil
  then show ?case by simp
next
  case (Cons c cl)
  show ?case
  proof (cases "find (\<lambda>level. Index_has (index level) c) levels")
    case None
    then have "e = ChunkMissing c" using Cons.prems by simp
    then have "c # cl = [] @ c # cl \<and> e = ChunkMissing c
      \<and> find (\<lambda>level. Index_has (index level) c) levels = None
      \<and> (\<forall>k\<in>set []. find (\<lambda>level. Index_has (index level) k) levels \<noteq> None)"
      using None by simp
    then show ?thesis by blast
  next
    case (Some lv)
    then have "read_list levels cl = Inl e"
      using Cons.prems by (simp split: sum.splits)
    from Cons.IH[OF this] obtain pre k post where
      k: "cl = pre @ k # post" "e = ChunkMissing k"
        "find (\<lambda>level. Index_has (index level) k) levels = None"
        "\<forall>k\<in>set pre. find (\<lambda>level. Index_has (index level) k) levels \<noteq> None"
      by blast
    have "c # cl = (c # pre) @ k # post \<and> e = ChunkMissing k
      \<and> find (\<lambda>level. Index_has (index level) k) levels = None
      \<and> (\<forall>k\<in>set (c # pre). find (\<lambda>level. Index_has (index level) k) levels \<noteq> None)"
      using k Some by simp
    then show ?thesis by blast
  qed
qed

lemma upto_split_before:
  assumes "[0..N - 1] = pre @ c # post" and "k < c" and "0 \<le> k"
  shows "k \<in> set pre"
proof -
  have s: "sorted (pre @ c # post)" "distinct (pre @ c # post)"
    using assms(1)[symmetric] by simp_all
  have "c \<in> set [0..N - 1]" using assms(1) by simp
  then have "k \<in> set [0..N - 1]" using assms(2,3) by simp
  then have "k \<in> set pre \<or> k = c \<or> k \<in> set post" using assms(1) by auto
  moreover have "k \<notin> set post" using s(1) assms(2) by (auto simp: sorted_append)
  ultimately show ?thesis using assms(2) by auto
qed

text \<open>
  C2. For a requested level that \<open>get_levels\<close> lists (or none requested), \<open>restore\<close>
  opens the walk list: the requested level and every newer one in ascending order, then
  Base (Base alone when no level is requested). With \<open>N\<close> the ceiling of the size
  recorded in the first level of the walk over the chunk size, the read list has exactly
  the chunk ids \<open>0 .. N - 1\<close> in order, each with the first level of the walk whose index
  has it, and \<open>restore\<close> is the writing of this read list to the empty target.
  \<open>restore\<close> raises the chunk-missing exception exactly when some chunk id in \<open>[0, N)\<close>
  is in no level of the walk, and the id it reports is the least such id.
\<close>

theorem restore_spec:
  assumes cs: "0 < cs"
    and g: "case g of None \<Rightarrow> True | Some l \<Rightarrow> l \<in> set (get_levels a)"
  shows "(let walk = walk_list cs a g;
              N = \<lceil>real_of_int (Level_size (hd walk)) / real_of_int cs\<rceil>
          in restore_levels cs a g = Inr walk
           \<and> (case restore_read_list cs a g of
                Inl e \<Rightarrow> \<exists>c. e = ChunkMissing c \<and> in_no_level walk N c
                            \<and> restore md5 cs a g = Inl (ChunkMissing c)
              | Inr rl \<Rightarrow> map fst rl = [0..N - 1]
                            \<and> (\<forall>(c, lv)\<in>set rl. holds_first walk c lv)
                            \<and> restore md5 cs a g = restore_write md5 cs rl [])
           \<and> ((\<exists>c. restore md5 cs a g = Inl (ChunkMissing c)) \<longleftrightarrow> (\<exists>c. in_no_level walk N c))
           \<and> (\<forall>c. restore md5 cs a g = Inl (ChunkMissing c) \<longrightarrow>
                  in_no_level walk N c \<and> (\<forall>k<c. \<not> in_no_level walk N k)))"
proof -
  define walk where "walk = walk_list cs a g"
  define N where "N = \<lceil>real_of_int (Level_size (hd walk)) / real_of_int cs\<rceil>"
  have lv: "restore_levels cs a g = Inr walk"
    unfolding walk_def using g by (rule restore_levels_walk)
  have "(Level_size (hd walk) - 1) div cs = N - 1"
    using num_chunks_ceiling[OF cs, of "Level_size (hd walk)"] by (simp add: N_def)
  then have rl: "restore_read_list cs a g = read_list walk [0..N - 1]"
    using cs by (simp add: restore_read_list_def lv Let_def)
  have none: "find (\<lambda>level. Index_has (index level) c) walk = None
      \<longleftrightarrow> (\<forall>lv\<in>set walk. \<not> Index_has (index lv) c)" for c
    by (auto simp: find_None_iff)
  have raised: "in_no_level walk N c \<and> (\<forall>k<c. \<not> in_no_level walk N k)
      \<and> restore md5 cs a g = Inl (ChunkMissing c)"
    if e: "restore_read_list cs a g = Inl (ChunkMissing c)" for c
  proof -
    from e have "read_list walk [0..N - 1] = Inl (ChunkMissing c)" unfolding rl .
    from read_list_first_missing[OF this] obtain pre post where
      sp: "[0..N - 1] = pre @ c # post"
      and m: "find (\<lambda>level. Index_has (index level) c) walk = None"
      and p: "\<forall>k\<in>set pre. find (\<lambda>level. Index_has (index level) k) walk \<noteq> None"
      by auto
    have "c \<in> set [0..N - 1]" unfolding sp by simp
    then have 1: "in_no_level walk N c"
      using m by (simp add: in_no_level_def none)
    have 2: "\<not> in_no_level walk N k" if "k < c" for k
    proof (cases "0 \<le> k")
      case True
      from upto_split_before[OF sp that True] p show ?thesis
        by (auto simp: in_no_level_def none)
    next
      case False
      then show ?thesis by (simp add: in_no_level_def)
    qed
    show ?thesis using 1 2 e by (simp add: restore_def)
  qed
  have A: "case restore_read_list cs a g of
                Inl e \<Rightarrow> \<exists>c. e = ChunkMissing c \<and> in_no_level walk N c
                            \<and> restore md5 cs a g = Inl (ChunkMissing c)
              | Inr rl \<Rightarrow> map fst rl = [0..N - 1]
                            \<and> (\<forall>(c, lv)\<in>set rl. holds_first walk c lv)
                            \<and> restore md5 cs a g = restore_write md5 cs rl []"
  proof (cases "read_list walk [0..N - 1]")
    case (Inl e)
    from read_list_Inl[OF this] obtain c where "e = ChunkMissing c" by blast
    then have "restore_read_list cs a g = Inl (ChunkMissing c)" using Inl rl by simp
    from raised[OF this] this show ?thesis by simp
  next
    case (Inr r)
    from read_list_Inr[OF this] show ?thesis
      unfolding rl Inr by (auto dest: find_holds_first simp: restore_def rl Inr)
  qed
  have C: "in_no_level walk N c \<and> (\<forall>k<c. \<not> in_no_level walk N k)"
    if r: "restore md5 cs a g = Inl (ChunkMissing c)" for c
  proof (cases "restore_read_list cs a g")
    case (Inl e)
    then have "e = ChunkMissing c" using r by (simp add: restore_def)
    with Inl raised[of c] show ?thesis by simp
  next
    case (Inr r')
    then show ?thesis using r restore_write_not_missing[of md5 cs r' "[]" c]
      by (simp add: restore_def)
  qed
  have B: "(\<exists>c. restore md5 cs a g = Inl (ChunkMissing c)) \<longleftrightarrow> (\<exists>c. in_no_level walk N c)"
  proof
    assume "\<exists>c. restore md5 cs a g = Inl (ChunkMissing c)"
    then show "\<exists>c. in_no_level walk N c" using C by blast
  next
    assume "\<exists>c. in_no_level walk N c"
    then obtain c where c: "0 \<le> c" "c < N" "\<forall>lv\<in>set walk. \<not> Index_has (index lv) c"
      by (auto simp: in_no_level_def)
    show "\<exists>c. restore md5 cs a g = Inl (ChunkMissing c)"
    proof (cases "read_list walk [0..N - 1]")
      case (Inl e)
      from read_list_Inl[OF this] obtain k where "e = ChunkMissing k" by blast
      then have "restore_read_list cs a g = Inl (ChunkMissing k)" using Inl rl by simp
      from raised[OF this] show ?thesis by blast
    next
      case (Inr r)
      from read_list_Inr[OF this] have m: "map fst r = [0..N - 1]"
        and f: "\<forall>(c, lv)\<in>set r. find (\<lambda>level. Index_has (index level) c) walk = Some lv" by auto
      have "c \<in> set (map fst r)" unfolding m using c by simp
      then obtain lv where "(c, lv) \<in> set r" by auto
      with f have "find (\<lambda>level. Index_has (index level) c) walk = Some lv" by auto
      then have "lv \<in> set walk \<and> Index_has (index lv) c"
        by (metis find_Some_iff nth_mem)
      with c(3) show ?thesis by blast
    qed
  qed
  show ?thesis
    unfolding Let_def walk_def[symmetric] N_def[symmetric] using lv A B C by blast
qed

theorem restore_spec_witness:
  "get_levels sample_archive = [0, 1, 2]
   \<and> restore_levels 4 sample_archive (Some 1) = Inr (walk_list 4 sample_archive (Some 1))
   \<and> map Level_size (walk_list 4 sample_archive (Some 1)) = [5, 9, 9]
   \<and> map_sum id (map fst) (restore_read_list 4 sample_archive (Some 1)) = Inr [0, 1]
   \<and> restore hex_digest 4 sample_archive (Some 1) = Inr [1, 2, 3, 4, 5]
   \<and> in_no_level (walk_list 4 sample_truncated None) 3 2
   \<and> restore hex_digest 4 sample_truncated None = Inl (ChunkMissing 2)"
proof -
  have gl: "get_levels sample_archive = [0, 1, 2]"
    by code_simp
  have sz: "map Level_size (walk_list 4 sample_archive (Some 1)) = [5, 9, 9]"
    by code_simp
  have rl: "map_sum id (map fst) (restore_read_list 4 sample_archive (Some 1)) = Inr [0, 1]"
    by code_simp
  have r1: "restore hex_digest 4 sample_archive (Some 1) = Inr [1, 2, 3, 4, 5]"
    by code_simp
  have r2: "restore hex_digest 4 sample_truncated None = Inl (ChunkMissing 2)"
    by code_simp
  have n: "\<lceil>real_of_int (Level_size (hd (walk_list 4 sample_truncated None))) / real_of_int 4\<rceil> = 3"
  proof -
    have "Level_size (hd (walk_list 4 sample_truncated None)) = 9" by code_simp
    then show ?thesis by simp
  qed
  have h1: "(0::int) < 4"
    by simp
  have h2: "case Some 1 of None \<Rightarrow> True | Some l \<Rightarrow> l \<in> set (get_levels sample_archive)"
    by (simp add: gl)
  have h3: "case None of None \<Rightarrow> True | Some l \<Rightarrow> l \<in> set (get_levels sample_truncated)"
    by simp
  from restore_spec [OF h1 h2, of hex_digest]
  have 1: "restore_levels 4 sample_archive (Some 1) = Inr (walk_list 4 sample_archive (Some 1))"
    unfolding Let_def by blast
  from restore_spec [OF h1 h3, of hex_digest]
  have "\<forall>c. restore hex_digest 4 sample_truncated None = Inl (ChunkMissing c) \<longrightarrow>
      in_no_level (walk_list 4 sample_truncated None) 3 c"
    unfolding Let_def n by blast
  then have 2: "in_no_level (walk_list 4 sample_truncated None) 3 2"
    using r2 by blast
  show ?thesis using gl sz rl r1 r2 1 2 by simp
qed

text \<open>
  C9. \<open>restore\<close> at level \<open>j\<close> depends only on Base and on the levels from \<open>j\<close> on: two
  directories with the same Base files and the same files for every level number from
  \<open>j\<close> on give the same read list and the same result, whatever their older levels are.
\<close>

theorem restore_independent_of_older_levels:
  assumes base: "base_files a = base_files b"
    and newer: "\<forall>m\<ge>j. map_of (overlay_files a) m = map_of (overlay_files b) m"
  shows "restore_read_list cs a (Some j) = restore_read_list cs b (Some j)
       \<and> restore md5 cs a (Some j) = restore md5 cs b (Some j)"
proof -
  have keys: "m \<in> fst ` set (overlay_files a) \<longleftrightarrow> m \<in> fst ` set (overlay_files b)" if "j \<le> m" for m
    using newer that by (metis map_of_eq_None_iff)
  have f: "files_of a (Some m) = files_of b (Some m)" if "j \<le> m" for m
    using newer that by (simp add: files_of_def)
  have fl: "filter (\<lambda>x. j \<le> x) (get_levels a) = filter (\<lambda>x. j \<le> x) (get_levels b)"
    unfolding get_levels_def by (rule filter_sort_remdups_cong) (use keys in auto)
  have lv: "restore_levels cs a (Some j) = restore_levels cs b (Some j)"
  proof (cases "j \<in> set (get_levels a)")
    case True
    then have "j \<in> set (get_levels b)" using keys[of j] by (simp add: get_levels_sorted)
    have "walk_list cs a (Some j) = walk_list cs b (Some j)"
      using f fl base by (simp add: walk_list_def files_of_def cong: map_cong)
    then show ?thesis
      using True \<open>j \<in> set (get_levels b)\<close> by (simp add: restore_levels_walk)
  next
    case False
    then have "j \<notin> set (get_levels b)" using keys[of j] by (simp add: get_levels_sorted)
    then show ?thesis using False by (simp add: restore_levels_not_found)
  qed
  then have "restore_read_list cs a (Some j) = restore_read_list cs b (Some j)"
    by (simp add: restore_read_list_def)
  then show ?thesis by (simp add: restore_def)
qed

theorem restore_independent_of_older_levels_witness:
  "restore hex_digest 4 sample_archive (Some 1) = Inr [1, 2, 3, 4, 5]
   \<and> restore hex_digest 4
        (sample_archive\<lparr>overlay_files := (0, sample_files) # tl (overlay_files sample_archive)\<rparr>)
        (Some 1) = Inr [1, 2, 3, 4, 5]"
proof -
  have r: "restore hex_digest 4 sample_archive (Some 1) = Inr [1, 2, 3, 4, 5]"
    by code_simp
  have ov: "overlay_files sample_archive = (0, no_files) # tl (overlay_files sample_archive)"
    by code_simp
  have h1: "base_files sample_archive =
      base_files (sample_archive\<lparr>overlay_files := (0, sample_files) # tl (overlay_files sample_archive)\<rparr>)"
    by simp
  have h2: "\<forall>m\<ge>1. map_of (overlay_files sample_archive) m =
      map_of (overlay_files
        (sample_archive\<lparr>overlay_files := (0, sample_files) # tl (overlay_files sample_archive)\<rparr>)) m"
    by (subst ov) simp
  from restore_independent_of_older_levels [OF h1 h2, of 4 hex_digest] r
  show ?thesis by simp
qed

section \<open>Closing and reopening a level\<close>

lemma Level_write_keys_distinct:
  "distinct (map fst (index_d (index lv))) \<Longrightarrow>
   distinct (map fst (index_d (index (snd (Level_write md5 lv c dt)))))"
  using apply_op_keys[of md5 "Write c dt" lv]
  by (auto split: if_splits)

lemma fold_update_distinct:
  "distinct (map fst al) \<Longrightarrow>
   distinct (map fst (fold (\<lambda>(k, v) d. AList.update k v d) xs al))"
  by (induction xs arbitrary: al) (auto simp: distinct_update)

lemma Level_open_distinct: "distinct (map fst (index_d (index (Level_open cs f))))"
  by (simp add: Level_open_def Index_read_def Index_init_def fold_update_distinct)

lemma fold_update_fresh:
  "distinct (map fst xs) \<Longrightarrow> fst ` set al \<inter> fst ` set xs = {} \<Longrightarrow>
   fold (\<lambda>(k, v) d. AList.update k v d) xs al = al @ xs"
proof (induction xs arbitrary: al)
  case Nil
  then show ?case by simp
next
  case (Cons x xs)
  obtain k v where x: "x = (k, v)" by fastforce
  have "map_of al k = None" using Cons.prems(2) x by (auto simp: map_of_eq_None_iff)
  then have u: "AList.update k v al = al @ [(k, v)]" by (rule update_fresh)
  have "fold (\<lambda>(k, v) d. AList.update k v d) xs (al @ [(k, v)]) = (al @ [(k, v)]) @ xs"
    using Cons.prems x by (intro Cons.IH) auto
  then show ?case by (simp add: x u)
qed

lemma Index_write_lines:
  "map fst (snd (Index_write ix)) = sort (map fst (index_d ix))"
  "map_of (snd (Index_write ix)) = map_of (index_d ix)"
proof -
  show "map fst (snd (Index_write ix)) = sort (map fst (index_d ix))"
    by (simp add: Index_write_def comp_def)
  show "map_of (snd (Index_write ix)) = map_of (index_d ix)"
  proof
    fix k
    show "map_of (snd (Index_write ix)) k = map_of (index_d ix) k"
    proof (cases "map_of (index_d ix) k")
      case None
      then have "k \<notin> fst ` set (index_d ix)" by (simp add: map_of_eq_None_iff)
      then have "k \<notin> fst ` set (snd (Index_write ix))"
        by (force simp: Index_write_def)
      then have "map_of (snd (Index_write ix)) k = None"
        by (simp add: map_of_eq_None_iff)
      then show ?thesis using None by simp
    next
      case (Some m)
      then have "k \<in> set (sort (map fst (index_d ix)))"
        using map_of_Some_key[OF Some] by simp
      then show ?thesis using Some
        by (simp add: Index_write_def map_of_map_restrict)
    qed
  qed
qed

lemma reopen_index:
  assumes "distinct (map fst (index_d (index lv)))"
  shows "index_d (index (Level_open cs (Level_close lv))) = snd (Index_write (index lv))"
    and "Level_size (Level_open cs (Level_close lv)) = Level_size lv"
    and "data (Level_open cs (Level_close lv)) = data lv"
    and "chunk_size (Level_open cs (Level_close lv)) = cs"
    and "chunk_size_i (index (Level_open cs (Level_close lv))) = cs"
proof -
  have "distinct (map fst (snd (Index_write (index lv))))"
    using assms by (simp add: Index_write_lines(1))
  then show "index_d (index (Level_open cs (Level_close lv))) = snd (Index_write (index lv))"
    using fold_update_fresh[of "snd (Index_write (index lv))" "[]"]
    by (simp add: Level_open_def Level_close_def Index_read_def Index_init_def)
  show "Level_size (Level_open cs (Level_close lv)) = Level_size lv"
    by (simp add: Level_size_open Level_size_close)
  show "data (Level_open cs (Level_close lv)) = data lv"
    by (simp add: Level_open_def Level_close_def)
  show "chunk_size (Level_open cs (Level_close lv)) = cs"
    by (simp add: Level_open_def)
  show "chunk_size_i (index (Level_open cs (Level_close lv))) = cs"
    by (simp add: Level_open_def Index_read_def Index_init_def)
qed

lemma reopen_map_of:
  assumes "distinct (map fst (index_d (index lv)))"
  shows "map_of (index_d (index (Level_open cs (Level_close lv)))) = map_of (index_d (index lv))"
  by (simp add: reopen_index(1)[OF assms] Index_write_lines(2))

lemma Level_close_cong:
  "data x = data y \<Longrightarrow> Index_write (index x) = Index_write (index y) \<Longrightarrow>
   Level_close x = Level_close y"
  by (simp add: Level_close_def)

lemma reclose:
  assumes "distinct (map fst (index_d (index lv)))"
  shows "Level_close (Level_open cs (Level_close lv)) = Level_close lv"
proof -
  let ?lv' = "Level_open cs (Level_close lv)"
  have k: "map fst (index_d (index ?lv')) = sort (map fst (index_d (index lv)))"
    by (simp add: reopen_index(1)[OF assms] Index_write_lines(1))
  have "Index_write (index ?lv') = Index_write (index lv)"
    using reopen_index(2)[OF assms, of cs]
    by (simp add: Index_write_def k reopen_map_of[OF assms] Level_size_def sorted_sort_id)
  moreover have "data ?lv' = data lv"
    by (rule reopen_index(3)[OF assms])
  ultimately show ?thesis
    by (intro Level_close_cong)
qed

section \<open>Backup: what the loop leaves in Base\<close>

lemma file_read_chunk:
  "0 < cs \<Longrightarrow> 0 \<le> c \<Longrightarrow> file_read src (c * cs) cs = Inr (chunk cs src c)"
  by (simp add: file_read_def chunk_def mult_less_0_iff)

lemma file_read_chunk_Inr:
  assumes "0 < cs" "file_read src (c * cs) cs = Inr d"
  shows "0 \<le> c \<and> d = chunk cs src c"
proof -
  have "\<not> c * cs < 0" using assms(2) by (auto simp: file_read_def split: if_splits)
  then have "0 \<le> c" using assms(1) by (simp add: mult_less_0_iff)
  then show ?thesis using assms file_read_chunk[of cs c src] by simp
qed

lemma evict_and_write_base:
  assumes "evict_and_write md5 b n c d = (r, b', n')"
  shows "b' = b \<or> b' = snd (Level_write md5 b c d)"
    and "r = None \<Longrightarrow> Level_write md5 b c d = (None, b')"
  using assms unfolding evict_and_write_def
  by (auto split: sum.splits if_splits prod.splits option.splits)

lemma backup_chunk_base:
  assumes "backup_chunk md5 cs src b n c = (r, b', n')"
  shows "b' = b \<or> (\<exists>d. b' = snd (Level_write md5 b c d))"
  using assms unfolding backup_chunk_def
  by (auto split: sum.splits if_splits simp: Let_def dest: evict_and_write_base(1))

lemma backup_chunk_other:
  assumes "backup_chunk md5 cs src b n c = (r, b', n')" "k \<noteq> c"
  shows "map_of (index_d (index b')) k = map_of (index_d (index b)) k"
  using backup_chunk_base[OF assms(1)] assms(2) by (auto simp: Level_write_map_of_other)

lemma backup_chunk_distinct:
  assumes "backup_chunk md5 cs src b n c = (r, b', n')" "distinct (map fst (index_d (index b)))"
  shows "distinct (map fst (index_d (index b')))"
  using backup_chunk_base[OF assms(1)] assms(2) by (auto simp: Level_write_keys_distinct)

lemma backup_chunk_done:
  assumes cs: "0 < cs" and ok: "backup_chunk md5 cs src b n c = (None, b', n')"
  shows "0 \<le> c" "chunk cs src c \<noteq> []"
    "\<exists>m. map_of (index_d (index b')) c = Some m \<and> checksum m = md5 (chunk cs src c)"
proof -
  obtain d where d: "file_read src (c * cs) cs = Inr d"
    using ok by (cases "file_read src (c * cs) cs") (auto simp: backup_chunk_def)
  from file_read_chunk_Inr[OF cs d] have c: "0 \<le> c" and dd: "d = chunk cs src c" by simp_all
  show "0 \<le> c" by (rule c)
  have ne: "d \<noteq> []" using ok d by (auto simp: backup_chunk_def split: if_splits)
  then show "chunk cs src c \<noteq> []" using dd by simp
  show "\<exists>m. map_of (index_d (index b')) c = Some m \<and> checksum m = md5 (chunk cs src c)"
  proof (cases "Level_read_meta b c")
    case (Inl e)
    then have "evict_and_write md5 b n c d = (None, b', n')"
      using ok d ne by (simp add: backup_chunk_def)
    from evict_and_write_base(2)[OF this] Level_write_map_of_same show ?thesis
      unfolding dd by blast
  next
    case (Inr m)
    show ?thesis
    proof (cases "md5 d = checksum m")
      case True
      then have "b' = b" using ok d ne Inr by (simp add: backup_chunk_def)
      moreover have "map_of (index_d (index b)) c = Some m"
        using Inr by (cases "map_of (index_d (index b)) c")
          (auto simp: Level_read_meta_def Index_has_def Index_get_has split: if_splits)
      ultimately show ?thesis using True dd by auto
    next
      case False
      then have "evict_and_write md5 b n c d = (None, b', n')"
        using ok d ne Inr by (simp add: backup_chunk_def)
      from evict_and_write_base(2)[OF this] Level_write_map_of_same show ?thesis
        unfolding dd by blast
    qed
  qed
qed

lemma backup_chunk_skip:
  assumes "0 < cs" "0 \<le> c" "chunk cs src c \<noteq> []"
    and "map_of (index_d (index b)) c = Some m" "checksum m = md5 (chunk cs src c)"
  shows "backup_chunk md5 cs src b n c = (None, b, n)"
  using assms
  by (simp add: backup_chunk_def file_read_chunk Level_read_meta_present)

lemma backup_loop_done:
  assumes "0 < cs" "backup_loop md5 cs src cl b n = (None, b', n')" "distinct cl"
  shows "\<forall>k\<in>set cl. 0 \<le> k \<and> chunk cs src k \<noteq> []
           \<and> (\<exists>m. map_of (index_d (index b')) k = Some m \<and> checksum m = md5 (chunk cs src k))"
    and "\<forall>k. k \<notin> set cl \<longrightarrow> map_of (index_d (index b')) k = map_of (index_d (index b)) k"
    and "distinct (map fst (index_d (index b))) \<Longrightarrow> distinct (map fst (index_d (index b')))"
  using assms(2,3)
proof (induction cl arbitrary: b n)
  case Nil
  { case 1 then show ?case by simp }
  { case 2 then show ?case by simp }
  { case 3 then show ?case by simp }
next
  case (Cons c cl)
  { case 1
    obtain r1 b1 n1 where c1: "backup_chunk md5 cs src b n c = (r1, b1, n1)"
      by (metis prod_cases3)
    have r1: "r1 = None" using 1(1) c1 by (cases r1) auto
    then have l: "backup_loop md5 cs src cl b1 n1 = (None, b', n')"
      using 1(1) c1 by simp
    have d: "distinct cl" "c \<notin> set cl" using 1(2) by simp_all
    have "map_of (index_d (index b')) c = map_of (index_d (index b1)) c"
      using Cons.IH(2)[OF l d(1)] d(2) by blast
    then show ?case
      using Cons.IH(1)[OF l d(1)] backup_chunk_done[OF assms(1) c1[unfolded r1]] by simp }
  { case 2
    obtain r1 b1 n1 where c1: "backup_chunk md5 cs src b n c = (r1, b1, n1)"
      by (metis prod_cases3)
    have r1: "r1 = None" using 2(1) c1 by (cases r1) auto
    then have l: "backup_loop md5 cs src cl b1 n1 = (None, b', n')"
      using 2(1) c1 by simp
    have d: "distinct cl" using 2(2) by simp
    show ?case
      using Cons.IH(2)[OF l d] backup_chunk_other[OF c1] by simp }
  { case 3
    obtain r1 b1 n1 where c1: "backup_chunk md5 cs src b n c = (r1, b1, n1)"
      by (metis prod_cases3)
    have r1: "r1 = None" using 3 c1 by (cases r1) auto
    then have l: "backup_loop md5 cs src cl b1 n1 = (None, b', n')"
      using 3 c1 by simp
    have d: "distinct cl" using 3 by simp
    have "distinct (map fst (index_d (index b)))" using 3 by simp
    then have "distinct (map fst (index_d (index b1)))"
      by (rule backup_chunk_distinct[OF c1])
    then show ?case using Cons.IH(3) l d by blast }
qed

lemma backup_loop_skip:
  assumes "0 < cs"
    and "\<forall>k\<in>set cl. 0 \<le> k \<and> chunk cs src k \<noteq> []
           \<and> (\<exists>m. map_of (index_d (index b)) k = Some m \<and> checksum m = md5 (chunk cs src k))"
  shows "backup_loop md5 cs src cl b n = (None, b, n)"
  using assms(2)
proof (induction cl)
  case Nil
  then show ?case by simp
next
  case (Cons c cl)
  then obtain m where "0 \<le> c" "chunk cs src c \<noteq> []"
    "map_of (index_d (index b)) c = Some m" "checksum m = md5 (chunk cs src c)" by auto
  then have "backup_chunk md5 cs src b n c = (None, b, n)"
    using assms(1) by (intro backup_chunk_skip)
  then show ?case using Cons by simp
qed


lemma read_chunks_distinct: "distinct (read_chunks h cs N)"
  by (simp add: read_chunks_def)

lemma backup_body_done:
  assumes "backup_body md5 cs src h b n = (None, b', n')"
  shows "\<exists>b0 n0. Level_set_size n (Level_size b) = Inr n0
           \<and> Level_set_size b (int (length src)) = Inr b0
           \<and> backup_loop md5 cs src (read_chunks h cs (ceil_div (int (length src)) cs)) b0 n0
               = (None, b', n')"
  using assms
  by (auto simp: backup_body_def Let_def split: sum.splits if_splits)

lemma Level_set_size_same: "Level_size lv = s \<Longrightarrow> Level_set_size lv s = Inr lv"
  by (auto simp: Level_set_size_def Level_size_def)

lemma Level_set_size_keys:
  "Level_set_size lv s = Inr lv' \<Longrightarrow> index_d (index lv') = index_d (index lv) \<and> data lv' = data lv"
  by (auto simp: Level_set_size_def split: if_splits)

section \<open>Reading a level after writes, size changes and reopening\<close>















section \<open>The backup loop on well-formed levels\<close>












section \<open>Restore from the chunks of a walk\<close>

lemma ceil_div_eq: "0 < cs \<Longrightarrow> ceil_div L cs = (L - 1) div cs + 1"
  using num_chunks_ceiling[of cs L] by (simp add: ceil_div_def ceiling_divide_eq_div)

lemma le_div_iff_int:
  assumes "0 < (cs::int)"
  shows "c \<le> n div cs \<longleftrightarrow> c * cs \<le> n"
proof
  assume "c \<le> n div cs"
  then have "c * cs \<le> (n div cs) * cs" using assms by (simp add: mult_right_mono)
  also have "\<dots> \<le> n"
  proof -
    have "n = (n div cs) * cs + n mod cs" by simp
    moreover have "0 \<le> n mod cs" using assms by simp
    ultimately show ?thesis by linarith
  qed
  finally show "c * cs \<le> n" .
next
  assume "c * cs \<le> n"
  then have "(c * cs) div cs \<le> n div cs" using assms by (intro zdiv_mono1)
  then show "c \<le> n div cs" using assms by simp
qed

lemma below_ceil_div:
  assumes "0 < cs"
  shows "c < ceil_div L cs \<longleftrightarrow> c * cs < L"
  using le_div_iff_int[OF assms, of c "L - 1"] by (simp add: ceil_div_eq[OF assms])




lemma chunk_nonempty:
  "0 < cs \<Longrightarrow> 0 \<le> c \<Longrightarrow> c * cs < int (length src) \<Longrightarrow> chunk cs src c \<noteq> []"
proof -
  assume a: "0 < cs" "0 \<le> c" "c * cs < int (length src)"
  then have "0 \<le> c * cs" by simp
  then have "nat (c * cs) < length src" using a(3) by (simp add: nat_less_iff)
  then show ?thesis using a(1) by (simp add: chunk_def)
qed






section \<open>Backing up the same image again\<close>

text \<open>
  C4. Let a backup of an image, with or without hints, have completed, and let every chunk
  of the image that this backup did not read have been recorded in Base before it with
  the digest of that chunk (a backup without hints reads every chunk, so for it nothing
  is asked). Then a following backup of the same image without hints completes, leaves
  the files of Base and of the older levels as they are, and adds one level whose data
  file is empty and whose index file records the size of the image and no chunk
  descriptor.
\<close>

theorem backup_twice:
  assumes cs: "0 < cs" and first: "backup md5 cs a src h = (None, a1)"
    and cover: "\<forall>c\<in>set [0..ceil_div (int (length src)) cs - 1].
        c \<in> set (read_chunks h cs (ceil_div (int (length src)) cs))
        \<or> (\<exists>m. map_of (index_d (index (Level_open cs (files_of a None)))) c = Some m
               \<and> checksum m = md5 (chunk cs src c))"
  shows "backup md5 cs a1 src None =
           (None, a1\<lparr>overlay_files := overlay_files a1
               @ [(get_next_level a1, \<lparr>data_file = [], index_file = (int (length src), [])\<rparr>)]\<rparr>)"
proof -
  let ?N = "ceil_div (int (length src)) cs"
  let ?cl = "read_chunks h cs ?N"
  have fb: "files_of a None = base_files a" by (simp add: files_of_def)
  obtain b1 n1 where body1: "backup_body md5 cs src h (Level_open cs (base_files a))
      (Level_open cs no_files) = (None, b1, n1)"
    and a1: "a1 = a\<lparr>base_files := Level_close b1,
               overlay_files := overlay_files a @ [(get_next_level a, Level_close n1)]\<rparr>"
    using first by (auto simp: backup_unfold split: prod.splits)
  obtain b0 n0 where b0: "Level_set_size (Level_open cs (base_files a)) (int (length src)) = Inr b0"
    and loop1: "backup_loop md5 cs src ?cl b0 n0 = (None, b1, n1)"
    using backup_body_done[OF body1] by blast
  have k0: "index_d (index b0) = index_d (index (Level_open cs (base_files a)))"
    using Level_set_size_keys[OF b0] by simp
  have "distinct (map fst (index_d (index b0)))"
    using Level_open_distinct[of cs "base_files a"] by (simp add: k0)
  then have d1: "distinct (map fst (index_d (index b1)))"
    using backup_loop_done(3)[OF cs loop1 read_chunks_distinct] by simp
  have "Level_size b0 = int (length src)"
    using Level_set_size_Inr[OF b0] by blast
  then have s1: "Level_size b1 = int (length src)"
    using backup_loop_size[OF loop1] by simp
  have ck1: "\<forall>k\<in>set [0..?N - 1]. 0 \<le> k \<and> chunk cs src k \<noteq> []
           \<and> (\<exists>m. map_of (index_d (index b1)) k = Some m \<and> checksum m = md5 (chunk cs src k))"
  proof
    fix k assume k: "k \<in> set [0..?N - 1]"
    then have k0N: "0 \<le> k" "k < ?N" by simp_all
    then have ne: "chunk cs src k \<noteq> []"
      using below_ceil_div[OF cs, of k "int (length src)"] by (intro chunk_nonempty[OF cs]) simp_all
    show "0 \<le> k \<and> chunk cs src k \<noteq> []
           \<and> (\<exists>m. map_of (index_d (index b1)) k = Some m \<and> checksum m = md5 (chunk cs src k))"
    proof (cases "k \<in> set ?cl")
      case True
      then show ?thesis
        using backup_loop_done(1)[OF cs loop1 read_chunks_distinct] by blast
    next
      case False
      then have "map_of (index_d (index b1)) k = map_of (index_d (index b0)) k"
        using backup_loop_done(2)[OF cs loop1 read_chunks_distinct] by blast
      moreover have "\<exists>m. map_of (index_d (index (Level_open cs (base_files a)))) k = Some m
               \<and> checksum m = md5 (chunk cs src k)"
        using cover k False by (auto simp: fb)
      ultimately show ?thesis using k0N(1) ne by (simp add: k0)
    qed
  qed
  define b2 where "b2 = Level_open cs (base_files a1)"
  have b2: "b2 = Level_open cs (Level_close b1)" by (simp add: b2_def a1)
  have m2: "map_of (index_d (index b2)) = map_of (index_d (index b1))"
    unfolding b2 by (rule reopen_map_of[OF d1])
  have s2: "Level_size b2 = int (length src)"
    unfolding b2 using s1 by (simp add: reopen_index(2)[OF d1])
  have c2: "Level_close b2 = base_files a1"
    unfolding b2 using reclose[OF d1] by (simp add: a1)
  define n2 where "n2 = (Level_open cs no_files)\<lparr>index := (index (Level_open cs no_files))
      \<lparr>size_i := int (length src)\<rparr>\<rparr>"
  have sn: "Level_set_size (Level_open cs no_files) (Level_size b2) = Inr n2"
    by (simp add: Level_set_size_def s2 n2_def Level_open_def Index_read_def Index_init_def
        no_files_def)
  have loop2: "backup_loop md5 cs src [0..?N - 1] b2 n2 = (None, b2, n2)"
    using ck1 by (intro backup_loop_skip[OF cs]) (simp add: m2)
  have body2: "backup_body md5 cs src None b2 (Level_open cs no_files) = (None, b2, n2)"
    using cs by (simp add: backup_body_def Let_def sn Level_set_size_same[OF s2] hints_given_def
        read_chunks_def loop2)
  have cn: "Level_close n2 = \<lparr>data_file = [], index_file = (int (length src), [])\<rparr>"
    by (simp add: n2_def Level_close_def Level_open_def Index_read_def Index_init_def no_files_def
        Index_write_def)
  show ?thesis
    by (simp add: backup_unfold b2_def[symmetric] body2 c2 cn)
qed


theorem backup_twice_witness:
  "backup hex_digest 4 sample_first [1, 2, 3, 4, 9, 9, 9, 9, 7] (Some [(4, 5)])
     = (None, sample_second)
   \<and> backup hex_digest 4 sample_second [1, 2, 3, 4, 9, 9, 9, 9, 7] None =
       (None, sample_second\<lparr>overlay_files := overlay_files sample_second
          @ [(2, \<lparr>data_file = [], index_file = (9, [])\<rparr>)]\<rparr>)"
proof -
  have h1: "(0::int) < 4"
    by simp
  have h2: "backup hex_digest 4 sample_first [1, 2, 3, 4, 9, 9, 9, 9, 7] (Some [(4, 5)])
      = (None, sample_second)"
    by code_simp
  have ids: "[0..ceil_div (int (length [1, 2, 3, 4, 9, 9, 9, 9, 7::byte])) 4 - 1] = [0, 1, 2]"
    by code_simp
  have rc: "read_chunks (Some [(4, 5)]) 4
      (ceil_div (int (length [1, 2, 3, 4, 9, 9, 9, 9, 7::byte])) 4) = [1, 2]"
    by code_simp
  have m0: "map_of (index_d (index (Level_open 4 (files_of sample_first None)))) 0
      = Some \<lparr>checksum = hex_digest (chunk 4 [1, 2, 3, 4, 9, 9, 9, 9, 7] 0), offset = 0,
               length_c = 4, status = CHUNK_STATUS_EXISTS\<rparr>"
    by code_simp
  have h3: "\<forall>c\<in>set [0..ceil_div (int (length [1, 2, 3, 4, 9, 9, 9, 9, 7::byte])) 4 - 1].
      c \<in> set (read_chunks (Some [(4, 5)]) 4
                (ceil_div (int (length [1, 2, 3, 4, 9, 9, 9, 9, 7::byte])) 4))
      \<or> (\<exists>m. map_of (index_d (index (Level_open 4 (files_of sample_first None)))) c = Some m
             \<and> checksum m = hex_digest (chunk 4 [1, 2, 3, 4, 9, 9, 9, 9, 7] c))"
    unfolding ids rc by (simp add: m0)
  have n: "get_next_level sample_second = 2"
    by code_simp
  from backup_twice [OF h1 h2 h3] h2 show ?thesis
    by (simp add: n)
qed

section \<open>Backups into an empty directory and their restores\<close>

























text \<open>
  The condition on where a hint starts is needed. The hint \<open>(3, 2)\<close> at chunk size 4
  contains both bytes that change between the two images below, but it starts inside
  chunk 0 and ends in chunk 1; the backup completes, reads chunk 0 only, and the restore
  of the newest image returns the old byte at position 4.
\<close>

lemma round_trip_unaligned_hint:
  "hints_cover 4 [1, 2, 3, 4, 5, 6, 7, 8] [1, 2, 3, 9, 9, 6, 7, 8] (Some [(3, 2)]) = False
   \<and> backups hex_digest 4 empty_archive
        [([1, 2, 3, 4, 5, 6, 7, 8], None), ([1, 2, 3, 9, 9, 6, 7, 8], Some [(3, 2)])]
      = ([None, None], snd (backups hex_digest 4 empty_archive
        [([1, 2, 3, 4, 5, 6, 7, 8], None), ([1, 2, 3, 9, 9, 6, 7, 8], Some [(3, 2)])]))
   \<and> restore hex_digest 4 (snd (backups hex_digest 4 empty_archive
        [([1, 2, 3, 4, 5, 6, 7, 8], None), ([1, 2, 3, 9, 9, 6, 7, 8], Some [(3, 2)])])) None
      = Inr [1, 2, 3, 9, 5, 6, 7, 8]"
  by code_simp

end
